theory Spec2Isabelle
  imports Main "HOL-Library.Word"
begin

unbundle bit_operations_syntax

section \<open>Bytes, little-endian integers and errors\<close>

type_synonym byte = "8 word"
type_synonym u16 = "16 word"
type_synonym u32 = "32 word"
type_synonym u64 = "64 word"

text \<open>
  The error values of packages \<open>storage\<close> and \<open>index\<close>. \<open>ErrIO\<close> stands for the error a
  positioned read returns when the file is too short; \<open>Panic\<close> stands for a Go run-time
  panic (index or slice bounds out of range).
\<close>

datatype error =
    ErrChecksumMismatch | ErrDataTooLarge
  | ErrNoSpace | ErrSlotDeleted | ErrBadSlotID
  | ErrNotFound | ErrDupKey | ErrCorruption
  | ErrIO | Panic

abbreviation PageSize :: nat where "PageSize \<equiv> 4096"
abbreviation HeaderSize :: nat where "HeaderSize \<equiv> 10"
abbreviation PayloadSize :: nat where "PayloadSize \<equiv> 4086"

text \<open>\<open>binary.LittleEndian\<close>: least significant byte first.\<close>

fun le_bytes :: "nat \<Rightarrow> 'a::len word \<Rightarrow> byte list" where
  "le_bytes 0 w = []"
| "le_bytes (Suc n) w = ucast w # le_bytes n (drop_bit 8 w)"

fun le_word :: "byte list \<Rightarrow> 'a::len word" where
  "le_word [] = 0"
| "le_word (b # bs) = ucast b OR push_bit 8 (le_word bs)"

text \<open>
  \<open>put_bytes d a bs\<close> is the array \<open>d\<close> after \<open>bs\<close> was stored at \<open>d[a : a + len(bs)]\<close>;
  \<open>get_bytes d a n\<close> is the slice \<open>d[a : a + n]\<close>. Both are used only where the slice is
  in range; the callers below check the range where the source can panic.
\<close>

definition put_bytes :: "byte list \<Rightarrow> nat \<Rightarrow> byte list \<Rightarrow> byte list" where
  "put_bytes d a bs = take a d @ bs @ drop (a + length bs) d"

definition get_bytes :: "byte list \<Rightarrow> nat \<Rightarrow> nat \<Rightarrow> byte list" where
  "get_bytes d a n = take n (drop a d)"

definition put_u16 :: "byte list \<Rightarrow> nat \<Rightarrow> u16 \<Rightarrow> byte list" where
  "put_u16 d a v = put_bytes d a (le_bytes 2 v)"

definition put_u32 :: "byte list \<Rightarrow> nat \<Rightarrow> u32 \<Rightarrow> byte list" where
  "put_u32 d a v = put_bytes d a (le_bytes 4 v)"

definition put_u64 :: "byte list \<Rightarrow> nat \<Rightarrow> u64 \<Rightarrow> byte list" where
  "put_u64 d a v = put_bytes d a (le_bytes 8 v)"

definition get_u16 :: "byte list \<Rightarrow> nat \<Rightarrow> u16" where
  "get_u16 d a = le_word (get_bytes d a 2)"

definition get_u32 :: "byte list \<Rightarrow> nat \<Rightarrow> u32" where
  "get_u32 d a = le_word (get_bytes d a 4)"

definition get_u64 :: "byte list \<Rightarrow> nat \<Rightarrow> u64" where
  "get_u64 d a = le_word (get_bytes d a 8)"

text \<open>
  Go's \<open>copy(dst[a:], src)\<close> for \<open>a \<le> len(dst)\<close>: it copies
  \<open>min(len(src), len(dst) - a)\<close> bytes.
\<close>

definition copy_at :: "byte list \<Rightarrow> nat \<Rightarrow> byte list \<Rightarrow> byte list" where
  "copy_at d a src = put_bytes d a (take (length d - a) src)"

section \<open>Pages (page.go)\<close>

record page =
  ID :: u32
  Checksum :: u32
  DataSize :: u16
  Data :: "byte list"

text \<open>A Go \<open>Page\<close> value has a \<open>Data\<close> array of exactly \<open>PayloadSize\<close> bytes.\<close>

definition page_ok :: "page \<Rightarrow> bool" where
  "page_ok p \<longleftrightarrow> length (Data p) = PayloadSize"

text \<open>\<open>&Page{ID: id}\<close>: every other field is zero.\<close>

definition new_page :: "u32 \<Rightarrow> page" where
  "new_page i = \<lparr>ID = i, Checksum = 0, DataSize = 0, Data = replicate PayloadSize 0\<rparr>"

text \<open>
  \<open>crc32.ChecksumIEEE\<close> of the Go standard library, in its bit-serial form: reflected
  polynomial \<open>0xEDB88320\<close>, the register starts at \<open>0xFFFFFFFF\<close> and is complemented at
  the end.
\<close>

definition crc_round :: "u32 \<Rightarrow> u32" where
  "crc_round c = (if bit c 0 then drop_bit 1 c XOR 0xEDB88320 else drop_bit 1 c)"

definition crc_byte :: "u32 \<Rightarrow> byte \<Rightarrow> u32" where
  "crc_byte c b = (crc_round ^^ 8) (c XOR ucast b)"

definition ChecksumIEEE :: "byte list \<Rightarrow> u32" where
  "ChecksumIEEE bs = NOT (foldl crc_byte (NOT 0) bs)"

text \<open>\<open>p.Data[:p.DataSize]\<close> panics when \<open>DataSize\<close> exceeds the array.\<close>

definition ComputeChecksum :: "page \<Rightarrow> error + u32" where
  "ComputeChecksum p =
     (if unat (DataSize p) > length (Data p) then Inl Panic
      else Inr (ChecksumIEEE (take (unat (DataSize p)) (Data p))))"

definition SetData :: "page \<Rightarrow> byte list \<Rightarrow> error + page" where
  "SetData p b =
     (if length b > PayloadSize then Inl ErrDataTooLarge
      else Inr (p\<lparr>DataSize := of_nat (length b),
                  Data := b @ replicate (PayloadSize - length b) 0\<rparr>))"

definition pageOffset :: "u32 \<Rightarrow> nat" where
  "pageOffset i = unat i * PageSize"

text \<open>
  The file is its byte sequence. A positioned write past the end fills the gap with
  zeros; a positioned read of \<open>n\<close> bytes fails unless all \<open>n\<close> bytes exist. Failures of
  the operating system other than a short read are not modelled.
\<close>

type_synonym osfile = "byte list"

definition WriteAt :: "osfile \<Rightarrow> byte list \<Rightarrow> nat \<Rightarrow> osfile" where
  "WriteAt f buf off =
     take off (f @ replicate (off - length f) 0) @ buf @ drop (off + length buf) f"

definition ReadAt :: "osfile \<Rightarrow> nat \<Rightarrow> nat \<Rightarrow> error + byte list" where
  "ReadAt f n off = (if off + n \<le> length f then Inr (take n (drop off f)) else Inl ErrIO)"

text \<open>The \<open>PageSize\<close>-byte buffer \<open>WritePage\<close> builds from a page whose checksum is set.\<close>

definition page_buf :: "page \<Rightarrow> byte list" where
  "page_buf p =
     (let buf = replicate PageSize 0;
          buf = put_u32 buf 0 (ID p);
          buf = put_u32 buf 4 (Checksum p);
          buf = put_u16 buf 8 (DataSize p)
      in copy_at buf HeaderSize (Data p))"

text \<open>
  \<open>WritePage\<close> returns the file and the page, whose \<open>Checksum\<close> field it has set
  (the source mutates the page through the pointer).
\<close>

definition WritePage :: "osfile \<Rightarrow> page \<Rightarrow> error + (osfile \<times> page)" where
  "WritePage f p =
     (if unat (DataSize p) > PayloadSize then Inl ErrDataTooLarge
      else case ComputeChecksum p of
        Inl e \<Rightarrow> Inl e
      | Inr c \<Rightarrow>
          let p' = p\<lparr>Checksum := c\<rparr>
          in Inr (WriteAt f (page_buf p') (pageOffset (ID p')), p'))"

definition ReadPage :: "osfile \<Rightarrow> u32 \<Rightarrow> error + page" where
  "ReadPage f i =
     (case ReadAt f PageSize (pageOffset i) of
        Inl e \<Rightarrow> Inl e
      | Inr buf \<Rightarrow>
          let p = \<lparr>ID = get_u32 buf 0, Checksum = get_u32 buf 4, DataSize = get_u16 buf 8,
                   Data = take PayloadSize (drop HeaderSize buf)\<rparr>
          in case ComputeChecksum p of
               Inl e \<Rightarrow> Inl e
             | Inr c \<Rightarrow> if c \<noteq> Checksum p then Inl ErrChecksumMismatch else Inr p)"

section \<open>Slotted pages (slotted.go)\<close>

abbreviation spHeaderSize :: nat where "spHeaderSize \<equiv> 6"
abbreviation slotEntrySize :: nat where "slotEntrySize \<equiv> 4"

record RID =
  PageID :: u32
  SlotID :: u16

definition header :: "page \<Rightarrow> u16 \<times> u16 \<times> u16" where
  "header p = (get_u16 (Data p) 0, get_u16 (Data p) 2, get_u16 (Data p) 4)"

definition setHeader :: "page \<Rightarrow> u16 \<Rightarrow> u16 \<Rightarrow> u16 \<Rightarrow> page" where
  "setHeader p slotCount freeStart freeEnd =
     p\<lparr>Data := put_u16 (put_u16 (put_u16 (Data p) 0 slotCount) 2 freeStart) 4 freeEnd,
       DataSize := of_nat PayloadSize\<rparr>"

definition InitIfFresh :: "page \<Rightarrow> page" where
  "InitIfFresh p =
     (let (sc, fs, fe) = header p;
          p1 = (if sc = 0 \<and> fs = 0 \<and> fe = 0
                then setHeader p 0 (of_nat spHeaderSize) (of_nat PayloadSize) else p)
      in if DataSize p1 = 0 then p1\<lparr>DataSize := of_nat PayloadSize\<rparr> else p1)"

definition freeSpace :: "page \<Rightarrow> int" where
  "freeSpace p = (let (sc, fs, fe) = header p in uint fe - uint fs - uint sc * 4)"

text \<open>\<open>index + 1\<close> is computed in \<open>uint16\<close> and wraps at 65535.\<close>

definition slotPos :: "u16 \<Rightarrow> int" where
  "slotPos index = int PayloadSize - uint (index + 1) * 4"

definition getSlot :: "page \<Rightarrow> u16 \<Rightarrow> error + (u16 \<times> u16)" where
  "getSlot p i =
     (let (sc, fs, fe) = header p in
      if i \<ge> sc then Inl ErrBadSlotID
      else let pos = slotPos i in
        if pos < 0 \<or> pos + 4 > int (length (Data p)) then Inl Panic
        else Inr (get_u16 (Data p) (nat pos), get_u16 (Data p) (nat pos + 2)))"

definition setSlot :: "page \<Rightarrow> u16 \<Rightarrow> u16 \<Rightarrow> u16 \<Rightarrow> error + page" where
  "setSlot p i off ln =
     (let pos = slotPos i in
      if pos < 0 \<or> pos + 2 > int (length (Data p)) then Inl Panic
      else let p1 = p\<lparr>Data := put_u16 (Data p) (nat pos) off\<rparr> in
        if pos + 4 > int (length (Data p)) then Inl Panic
        else Inr (p1\<lparr>Data := put_u16 (Data p1) (nat pos + 2) ln\<rparr>))"

text \<open>
  \<open>Insert\<close> returns its result together with the page as the call leaves it, so that
  what a failing call did to the page can be stated.
\<close>

definition SlottedPage_Insert :: "page \<Rightarrow> byte list \<Rightarrow> (error + u16) \<times> page" where
  "SlottedPage_Insert p rec =
     (if length rec > 0xFFFF then (Inl ErrDataTooLarge, p)
      else let req = int (length rec) + int slotEntrySize in
        if freeSpace p < req then (Inl ErrNoSpace, p)
        else let (sc, fs, fe) = header p in
          if unat fs > length (Data p) then (Inl Panic, p)
          else let p1 = p\<lparr>Data := copy_at (Data p) (unat fs) rec\<rparr>;
                   slotID = sc
               in case setSlot p1 slotID fs (of_nat (length rec)) of
                    Inl e \<Rightarrow> (Inl e, p1)
                  | Inr p2 \<Rightarrow>
                      (Inr slotID,
                       setHeader p2 (sc + 1) (fs + of_nat (length rec))
                         (fe - of_nat slotEntrySize)))"

definition SlottedPage_Read :: "page \<Rightarrow> u16 \<Rightarrow> error + byte list" where
  "SlottedPage_Read p i =
     (case getSlot p i of
        Inl e \<Rightarrow> Inl e
      | Inr (off, ln) \<Rightarrow>
          if ln = 0 then Inl ErrSlotDeleted
          else if unat off + unat ln > length (Data p) then Inl Panic
          else Inr (get_bytes (Data p) (unat off) (unat ln)))"

definition SlottedPage_Delete :: "page \<Rightarrow> u16 \<Rightarrow> error + page" where
  "SlottedPage_Delete p i =
     (case getSlot p i of
        Inl e \<Rightarrow> Inl e
      | Inr (off, ln) \<Rightarrow> setSlot p i off 0)"

text \<open>
  The slotted-page invariant of the data model: the header describes regions inside the
  payload, \<open>6 \<le> free_start \<le> free_end \<le> PayloadSize\<close>.
\<close>

definition sp_valid :: "page \<Rightarrow> bool" where
  "sp_valid p \<longleftrightarrow>
     page_ok p \<and>
     (let (sc, fs, fe) = header p
      in spHeaderSize \<le> unat fs \<and> unat fs \<le> unat fe \<and> unat fe \<le> PayloadSize)"

text \<open>A page with a non-zero slotted header whose \<open>DataSize\<close> is neither 0 nor \<open>PayloadSize\<close>.\<close>

definition stale_page :: page where
  "stale_page =
     \<lparr>ID = 0, Checksum = 0, DataSize = 100,
      Data = [1, 0, 10, 0, 0xF2, 0x0F] @ replicate 4080 0\<rparr>"

text \<open>The page \<open>ReadPage\<close> parses out of a \<open>PageSize\<close>-byte buffer, before the checksum test.\<close>

definition decode_page :: "byte list \<Rightarrow> page" where
  "decode_page buf = \<lparr>ID = get_u32 buf 0, Checksum = get_u32 buf 4, DataSize = get_u16 buf 8,
                   Data = take PayloadSize (drop HeaderSize buf)\<rparr>"

text \<open>Page 7 holding the two bytes \<open>"hi"\<close>.\<close>

definition sample_page :: page where
  "sample_page = \<lparr>ID = 7, Checksum = 0, DataSize = 2, Data = [0x68, 0x69] @ replicate 4084 0\<rparr>"

section \<open>The heap file (heapfile.go)\<close>

text \<open>A \<open>HeapFile\<close> holds only its file handle, so the heap is the file.\<close>

definition pageCount :: "osfile \<Rightarrow> u32" where
  "pageCount f = of_nat (length f div PageSize)"

text \<open>The loop \<open>for id := uint32(0); id < n; id++\<close> of \<open>findPageWithSpace\<close>.\<close>

function findPageLoop :: "osfile \<Rightarrow> int \<Rightarrow> u32 \<Rightarrow> u32 \<Rightarrow> error + (u32 \<times> page)" where
  "findPageLoop f need n i =
     (if i < n then
        (case ReadPage f i of
           Inl e \<Rightarrow> Inl e
         | Inr p \<Rightarrow>
             let sp = InitIfFresh p in
             if freeSpace sp \<ge> need then Inr (i, sp)
             else findPageLoop f need n (i + 1))
      else Inr (n, InitIfFresh (new_page n)))"
  by pat_completeness auto
termination
proof (relation "measure (\<lambda>(f, need, n, i). unat n - unat i)")
  show "wf (measure (\<lambda>(f, need, n, i). unat n - unat i))" by simp
next
  fix f :: osfile and need :: int and n i :: u32 and x2 :: page and xa :: page
  assume "i < n"
  then have "unat (i + 1) = unat i + 1" "unat i < unat n"
    by unat_arith+
  then show "((f, need, n, i + 1), f, need, n, i) \<in> measure (\<lambda>(f, need, n, i). unat n - unat i)"
    by simp
qed

declare findPageLoop.simps [simp del]

definition findPageWithSpace :: "osfile \<Rightarrow> int \<Rightarrow> error + (u32 \<times> page)" where
  "findPageWithSpace f need = findPageLoop f need (pageCount f) 0"

definition HeapFile_Insert :: "osfile \<Rightarrow> byte list \<Rightarrow> (error + RID) \<times> osfile" where
  "HeapFile_Insert f rec =
     (let need = int (length rec) + int slotEntrySize in
      case findPageWithSpace f need of
        Inl e \<Rightarrow> (Inl e, f)
      | Inr (i, sp) \<Rightarrow>
          (case SlottedPage_Insert sp rec of
             (Inl e, sp') \<Rightarrow> (Inl e, f)
           | (Inr slot, sp') \<Rightarrow>
               (case WritePage f sp' of
                  Inl e \<Rightarrow> (Inl e, f)
                | Inr (f', p') \<Rightarrow> (Inr \<lparr>PageID = i, SlotID = slot\<rparr>, f'))))"

definition HeapFile_Get :: "osfile \<Rightarrow> RID \<Rightarrow> error + byte list" where
  "HeapFile_Get f r =
     (case ReadPage f (PageID r) of
        Inl e \<Rightarrow> Inl e
      | Inr p \<Rightarrow> SlottedPage_Read p (SlotID r))"

definition HeapFile_Delete :: "osfile \<Rightarrow> RID \<Rightarrow> error option \<times> osfile" where
  "HeapFile_Delete f r =
     (case ReadPage f (PageID r) of
        Inl e \<Rightarrow> (Some e, f)
      | Inr p \<Rightarrow>
          (case SlottedPage_Delete p (SlotID r) of
             Inl e \<Rightarrow> (Some e, f)
           | Inr p' \<Rightarrow>
               (case WritePage f p' of
                  Inl e \<Rightarrow> (Some e, f)
                | Inr (f', p'') \<Rightarrow> (None, f'))))"

text \<open>
  \<open>Scan\<close> calls \<open>visit\<close> on the records it finds. The visitor is any deterministic
  function of the calls made so far and of the current record; \<open>Scan\<close> returns its error
  and the list of calls it made. The inner loop returns whether the scan goes on.
\<close>

type_synonym visit_log = "(RID \<times> byte list) list"

function scanSlots ::
  "page \<Rightarrow> u32 \<Rightarrow> u16 \<Rightarrow> u16 \<Rightarrow> (visit_log \<Rightarrow> RID \<Rightarrow> byte list \<Rightarrow> bool) \<Rightarrow> visit_log
     \<Rightarrow> error option \<times> bool \<times> visit_log" where
  "scanSlots p i sc s visit log =
     (if s < sc then
        (case SlottedPage_Read p s of
           Inl e \<Rightarrow>
             if e = ErrSlotDeleted then scanSlots p i sc (s + 1) visit log
             else (Some e, False, log)
         | Inr b \<Rightarrow>
             let r = \<lparr>PageID = i, SlotID = s\<rparr> in
             if \<not> visit log r b then (None, False, log @ [(r, b)])
             else scanSlots p i sc (s + 1) visit (log @ [(r, b)]))
      else (None, True, log))"
  by pat_completeness auto
termination
proof (relation "measure (\<lambda>(p, i, sc, s, visit, log). unat sc - unat s)")
  show "wf (measure (\<lambda>(p, i, sc, s, visit, log). unat sc - unat s))" by simp
next
  fix p :: page and i :: u32 and sc s :: u16
    and visit :: "visit_log \<Rightarrow> RID \<Rightarrow> byte list \<Rightarrow> bool" and log :: visit_log
  assume "s < sc"
  then have "unat (s + 1) = unat s + 1" "unat s < unat sc"
    by unat_arith+
  then show "((p, i, sc, s + 1, visit, log), p, i, sc, s, visit, log)
      \<in> measure (\<lambda>(p, i, sc, s, visit, log). unat sc - unat s)"
    by simp
next
  fix p :: page and i :: u32 and sc s :: u16
    and visit :: "visit_log \<Rightarrow> RID \<Rightarrow> byte list \<Rightarrow> bool" and log :: visit_log
    and b :: "byte list" and r :: RID
  assume "s < sc"
  then have "unat (s + 1) = unat s + 1" "unat s < unat sc"
    by unat_arith+
  then show "((p, i, sc, s + 1, visit, log @ [(r, b)]), p, i, sc, s, visit, log)
      \<in> measure (\<lambda>(p, i, sc, s, visit, log). unat sc - unat s)"
    by simp
qed

declare scanSlots.simps [simp del]

function scanPages ::
  "osfile \<Rightarrow> u32 \<Rightarrow> u32 \<Rightarrow> (visit_log \<Rightarrow> RID \<Rightarrow> byte list \<Rightarrow> bool) \<Rightarrow> visit_log
     \<Rightarrow> error option \<times> visit_log" where
  "scanPages f n i visit log =
     (if i < n then
        (case ReadPage f i of
           Inl e \<Rightarrow> (Some e, log)
         | Inr p \<Rightarrow>
             (case scanSlots p i (fst (header p)) 0 visit log of
                (Some e, go, log') \<Rightarrow> (Some e, log')
              | (None, go, log') \<Rightarrow>
                  if go then scanPages f n (i + 1) visit log' else (None, log')))
      else (None, log))"
  by pat_completeness auto
termination
proof (relation "measure (\<lambda>(f, n, i, visit, log). unat n - unat i)")
  show "wf (measure (\<lambda>(f, n, i, visit, log). unat n - unat i))" by simp
next
  fix f :: osfile and n i :: u32
    and visit :: "visit_log \<Rightarrow> RID \<Rightarrow> byte list \<Rightarrow> bool" and log log' :: visit_log
  assume "i < n"
  then have "unat (i + 1) = unat i + 1" "unat i < unat n"
    by unat_arith+
  then show "((f, n, i + 1, visit, log'), f, n, i, visit, log)
      \<in> measure (\<lambda>(f, n, i, visit, log). unat n - unat i)"
    by simp
qed

declare scanPages.simps [simp del]

definition HeapFile_Scan ::
  "osfile \<Rightarrow> (visit_log \<Rightarrow> RID \<Rightarrow> byte list \<Rightarrow> bool) \<Rightarrow> error option \<times> visit_log" where
  "HeapFile_Scan f visit = scanPages f (pageCount f) 0 visit []"

text \<open>
  The slot entry \<open>s\<close> of a page, and the invariant of the pages a heap file holds: the
  checksum covers the payload, the directory of \<open>sc\<close> entries starts at \<open>free_end\<close>, and
  each entry points into the record region \<open>[6, free_start)\<close>.
\<close>

definition slot_at :: "page \<Rightarrow> nat \<Rightarrow> u16 \<times> u16" where
  "slot_at p s = (get_u16 (Data p) (4082 - 4 * s), get_u16 (Data p) (4084 - 4 * s))"

definition pg_inv :: "page \<Rightarrow> bool" where
  "pg_inv p \<longleftrightarrow>
     page_ok p \<and> DataSize p = 4086 \<and>
     (let (sc, fs, fe) = header p in
        spHeaderSize \<le> unat fs \<and> unat fs \<le> unat fe \<and>
        unat fe + slotEntrySize * unat sc = PayloadSize \<and>
        (\<forall>s < unat sc. spHeaderSize \<le> unat (fst (slot_at p s)) \<and>
           unat (fst (slot_at p s)) + unat (snd (slot_at p s)) \<le> unat fs))"

definition heap_inv :: "osfile \<Rightarrow> bool" where
  "heap_inv f \<longleftrightarrow>
     length f mod PageSize = 0 \<and> length f div PageSize < 2 ^ 32 \<and>
     (\<forall>i < length f div PageSize.
        \<exists>p. ReadPage f (of_nat i) = Inr p \<and> ID p = of_nat i \<and> pg_inv p)"

text \<open>
  Sequences of heap operations in which every call succeeds: \<open>heap_inserts\<close> inserts the
  records in order and collects the rids; \<open>heap_run\<close> runs inserts and deletes. Both are
  \<open>None\<close> as soon as one call fails.
\<close>

fun heap_inserts :: "osfile \<Rightarrow> byte list list \<Rightarrow> (RID list \<times> osfile) option" where
  "heap_inserts f [] = Some ([], f)"
| "heap_inserts f (rec # recs) =
     (case HeapFile_Insert f rec of
        (Inl e, f') \<Rightarrow> None
      | (Inr rid, f') \<Rightarrow>
          (case heap_inserts f' recs of
             None \<Rightarrow> None
           | Some (rids, f'') \<Rightarrow> Some (rid # rids, f'')))"

datatype heap_op = HInsert "byte list" | HDelete RID

fun heap_run :: "osfile \<Rightarrow> heap_op list \<Rightarrow> osfile option" where
  "heap_run f [] = Some f"
| "heap_run f (HInsert rec # ops) =
     (case HeapFile_Insert f rec of
        (Inl e, f') \<Rightarrow> None
      | (Inr rid, f') \<Rightarrow> heap_run f' ops)"
| "heap_run f (HDelete r # ops) =
     (case HeapFile_Delete f r of
        (Some e, f') \<Rightarrow> None
      | (None, f') \<Rightarrow> heap_run f' ops)"

section \<open>The B-tree index (package index)\<close>

abbreviation kindMeta :: byte where "kindMeta \<equiv> 0"
abbreviation kindInternal :: byte where "kindInternal \<equiv> 1"
abbreviation kindLeaf :: byte where "kindLeaf \<equiv> 2"

abbreviation nodeHdrSize :: nat where "nodeHdrSize \<equiv> 16"
abbreviation leafEntrySize :: nat where "leafEntrySize \<equiv> 16"
abbreviation internalFirstKid :: nat where "internalFirstKid \<equiv> 4"
abbreviation internalEntSize :: nat where "internalEntSize \<equiv> 12"

text \<open>The tree handle: the index file (field \<open>f\<close> of the source) and the root page id.\<close>

record BTree =
  tfile :: osfile
  rootID :: u32

subsection \<open>Encoding and decoding of nodes\<close>

definition nodeKind :: "byte list \<Rightarrow> byte" where
  "nodeKind d = d ! 0"

definition setNodeHeader :: "byte list \<Rightarrow> byte \<Rightarrow> u16 \<Rightarrow> u32 \<Rightarrow> u32 \<Rightarrow> byte list" where
  "setNodeHeader d kind count parent aux =
     put_u32 (put_u32 (put_u16 (d[0 := kind, 1 := 0]) 2 count) 4 parent) 8 aux"

definition metaRoot :: "byte list \<Rightarrow> u32" where
  "metaRoot d = get_u32 d 8"

definition setMetaRoot :: "byte list \<Rightarrow> u32 \<Rightarrow> byte list" where
  "setMetaRoot d root = put_u32 d 8 root"

definition leafCapacity :: nat where
  "leafCapacity = (PayloadSize - nodeHdrSize) div leafEntrySize"

definition internalCapacity :: nat where
  "internalCapacity = (PayloadSize - nodeHdrSize - internalFirstKid) div internalEntSize"

text \<open>
  The decoding loop of \<open>leafLeafEntries\<close>, for the \<open>n\<close> entries from offset \<open>off\<close> on. A
  slice that leaves the payload panics.
\<close>

fun readLeafLoop :: "byte list \<Rightarrow> nat \<Rightarrow> nat \<Rightarrow> error + (u64 list \<times> RID list)" where
  "readLeafLoop d off 0 = Inr ([], [])"
| "readLeafLoop d off (Suc n) =
     (if off + 14 > length d then Inl Panic
      else case readLeafLoop d (off + leafEntrySize) n of
             Inl e \<Rightarrow> Inl e
           | Inr (keys, vals) \<Rightarrow>
               Inr (get_u64 d off # keys,
                    \<lparr>PageID = get_u32 d (off + 8), SlotID = get_u16 d (off + 12)\<rparr> # vals))"

definition leafLeafEntries :: "page \<Rightarrow> error + (u64 list \<times> RID list)" where
  "leafLeafEntries p = readLeafLoop (Data p) nodeHdrSize (unat (get_u16 (Data p) 2))"

text \<open>The encoding loop of \<open>writeLeaf\<close>; it returns the payload and the final offset.\<close>

fun writeLeafLoop ::
  "byte list \<Rightarrow> nat \<Rightarrow> u64 list \<Rightarrow> RID list \<Rightarrow> error + (byte list \<times> nat)" where
  "writeLeafLoop d off [] vals = Inr (d, off)"
| "writeLeafLoop d off (k # keys) vals =
     (if off + 8 > length d then Inl Panic
      else case vals of
             [] \<Rightarrow> Inl Panic
           | v # vals' \<Rightarrow>
               if off + 14 > length d then Inl Panic
               else writeLeafLoop
                      (put_u16 (put_u32 (put_u64 d off k) (off + 8) (PageID v))
                         (off + 12) (SlotID v))
                      (off + leafEntrySize) keys vals')"

text \<open>\<open>for j := off; j < PayloadSize; j++ { p.Data[j] = 0 }\<close>\<close>

definition zero_from :: "byte list \<Rightarrow> nat \<Rightarrow> byte list" where
  "zero_from d off = take off d @ replicate (length d - off) 0"

definition writeLeaf :: "page \<Rightarrow> u64 list \<Rightarrow> RID list \<Rightarrow> error + page" where
  "writeLeaf p keys vals =
     (case writeLeafLoop
             (setNodeHeader (Data p) kindLeaf (of_nat (length keys)) 0xFFFFFFFF 0)
             nodeHdrSize keys vals of
        Inl e \<Rightarrow> Inl e
      | Inr (d, off) \<Rightarrow> Inr (p\<lparr>Data := zero_from d off, DataSize := of_nat PayloadSize\<rparr>))"

fun readInternalLoop :: "byte list \<Rightarrow> nat \<Rightarrow> nat \<Rightarrow> error + (u64 list \<times> u32 list)" where
  "readInternalLoop d off 0 = Inr ([], [])"
| "readInternalLoop d off (Suc n) =
     (if off + 12 > length d then Inl Panic
      else case readInternalLoop d (off + internalEntSize) n of
             Inl e \<Rightarrow> Inl e
           | Inr (keys, kids) \<Rightarrow> Inr (get_u64 d off # keys, get_u32 d (off + 8) # kids))"

definition internalEntries :: "page \<Rightarrow> error + (u64 list \<times> u32 list)" where
  "internalEntries p =
     (case readInternalLoop (Data p) (nodeHdrSize + internalFirstKid)
             (unat (get_u16 (Data p) 2)) of
        Inl e \<Rightarrow> Inl e
      | Inr (keys, kids) \<Rightarrow> Inr (keys, get_u32 (Data p) nodeHdrSize # kids))"

text \<open>
  The loop of \<open>writeInternal\<close>; \<open>kids\<close> here is \<open>kids[i+1:]\<close> of the source, so an empty
  list is the index \<open>kids[i+1]\<close> out of range.
\<close>

fun writeInternalLoop ::
  "byte list \<Rightarrow> nat \<Rightarrow> u64 list \<Rightarrow> u32 list \<Rightarrow> error + (byte list \<times> nat)" where
  "writeInternalLoop d off [] kids = Inr (d, off)"
| "writeInternalLoop d off (k # keys) kids =
     (if off + 12 > length d then Inl Panic
      else case kids of
             [] \<Rightarrow> Inl Panic
           | c # kids' \<Rightarrow>
               writeInternalLoop (put_u32 (put_u64 d off k) (off + 8) c)
                 (off + internalEntSize) keys kids')"

definition writeInternal :: "page \<Rightarrow> u64 list \<Rightarrow> u32 list \<Rightarrow> error + page" where
  "writeInternal p keys kids =
     (let d = setNodeHeader (Data p) kindInternal (of_nat (length keys)) 0xFFFFFFFF 0 in
      case kids of
        [] \<Rightarrow> Inl Panic
      | c0 # kids' \<Rightarrow>
          (case writeInternalLoop (put_u32 d nodeHdrSize c0)
                  (nodeHdrSize + internalFirstKid) keys kids' of
             Inl e \<Rightarrow> Inl e
           | Inr (d', off) \<Rightarrow>
               Inr (p\<lparr>Data := zero_from d' off, DataSize := of_nat PayloadSize\<rparr>)))"

text \<open>
  \<open>kids := make([]uint32, len(keys)+1); kids[0] = left; copy(kids[1:], rightKids)\<close>
\<close>

definition writeInternalRoot :: "page \<Rightarrow> u32 \<Rightarrow> u64 list \<Rightarrow> u32 list \<Rightarrow> error + page" where
  "writeInternalRoot p left keys rightKids =
     writeInternal p keys
       (left # take (length keys) rightKids @ replicate (length keys - length rightKids) 0)"

subsection \<open>Array operations and splits\<close>

text \<open>
  \<open>a = append(a, 0); copy(a[i+1:], a[i:]); a[i] = v\<close>, called with \<open>i \<le> len(a)\<close> only.
\<close>

definition insertU :: "'a list \<Rightarrow> nat \<Rightarrow> 'a \<Rightarrow> 'a list" where
  "insertU a i v = take i a @ v # drop i a"

abbreviation insertU64 :: "u64 list \<Rightarrow> nat \<Rightarrow> u64 \<Rightarrow> u64 list" where
  "insertU64 \<equiv> insertU"

abbreviation insertU32 :: "u32 list \<Rightarrow> nat \<Rightarrow> u32 \<Rightarrow> u32 list" where
  "insertU32 \<equiv> insertU"

abbreviation insertRID :: "RID list \<Rightarrow> nat \<Rightarrow> RID \<Rightarrow> RID list" where
  "insertRID \<equiv> insertU"

text \<open>Both splits return the left halves (what \<open>*keys\<close> and \<open>*vals\<close> become) and the right halves.\<close>

definition splitLeafArrays ::
  "u64 list \<Rightarrow> RID list \<Rightarrow> (u64 list \<times> RID list) \<times> (u64 list \<times> RID list)" where
  "splitLeafArrays k v =
     (let mid = length k div 2 in ((take mid k, take mid v), (drop mid k, drop mid v)))"

definition splitInternalArrays ::
  "u64 list \<Rightarrow> u32 list \<Rightarrow> (u64 list \<times> u32 list) \<times> (u64 list \<times> u32 list)" where
  "splitInternalArrays k c =
     (let mid = length k div 2
      in ((take mid k, take (mid + 1) c), (drop mid k, drop (mid + 1) c)))"

text \<open>\<open>sort.Search\<close> of the Go standard library: binary search on \<open>[0, n)\<close>.\<close>

function searchLoop :: "(nat \<Rightarrow> bool) \<Rightarrow> nat \<Rightarrow> nat \<Rightarrow> nat" where
  "searchLoop pred i j =
     (if i < j then
        (let h = (i + j) div 2 in
         if \<not> pred h then searchLoop pred (h + 1) j else searchLoop pred i h)
      else i)"
  by pat_completeness auto
termination
  by (relation "measure (\<lambda>(pred, i, j). j - i)") auto

declare searchLoop.simps [simp del]

definition sort_Search :: "nat \<Rightarrow> (nat \<Rightarrow> bool) \<Rightarrow> nat" where
  "sort_Search n pred = searchLoop pred 0 n"

text \<open>The first index \<open>i\<close> with \<open>kids[i] == childID\<close>.\<close>

fun index_of :: "u32 list \<Rightarrow> u32 \<Rightarrow> nat option" where
  "index_of [] c = None"
| "index_of (x # xs) c = (if x = c then Some 0 else map_option Suc (index_of xs c))"

subsection \<open>Allocation, descent and the public operations\<close>

definition allocPage :: "BTree \<Rightarrow> byte \<Rightarrow> u32 \<times> page" where
  "allocPage t kind =
     (let next = (of_nat (length (tfile t) div PageSize) :: u32);
          p = (new_page next)\<lparr>DataSize := of_nat PayloadSize\<rparr>
      in (next, p\<lparr>Data := setNodeHeader (Data p) kind 0 0xFFFFFFFF 0\<rparr>))"

partial_function (option) findLeaf :: "osfile \<Rightarrow> u32 \<Rightarrow> u64 \<Rightarrow> (error + page) option" where
  "findLeaf f i key =
     (case ReadPage f i of
        Inl e \<Rightarrow> Some (Inl e)
      | Inr p \<Rightarrow>
          if nodeKind (Data p) = kindLeaf then Some (Inr p)
          else if nodeKind (Data p) = kindInternal then
            (case internalEntries p of
               Inl e \<Rightarrow> Some (Inl e)
             | Inr (keys, kids) \<Rightarrow>
                 findLeaf f (kids ! sort_Search (length keys) (\<lambda>i. key < keys ! i)) key)
          else Some (Inl ErrCorruption))"

partial_function (option) findParentAndIndex ::
  "osfile \<Rightarrow> u32 \<Rightarrow> u32 \<Rightarrow> u64 \<Rightarrow> (error + (page \<times> nat)) option" where
  "findParentAndIndex f currID childID key =
     (case ReadPage f currID of
        Inl e \<Rightarrow> Some (Inl e)
      | Inr p \<Rightarrow>
          if nodeKind (Data p) = kindLeaf then Some (Inl ErrCorruption)
          else
            (case internalEntries p of
               Inl e \<Rightarrow> Some (Inl e)
             | Inr (keys, kids) \<Rightarrow>
                 (case index_of kids childID of
                    Some i \<Rightarrow> Some (Inr (p, i))
                  | None \<Rightarrow>
                      findParentAndIndex f
                        (kids ! sort_Search (length keys) (\<lambda>i. key < keys ! i)) childID key)))"

text \<open>
  \<open>insertIntoParent\<close>, \<open>Insert\<close> and \<open>Get\<close> return the error (\<open>None\<close> for \<open>nil\<close>) and the
  tree as the call leaves it. The outer \<open>option\<close> is \<open>None\<close> when a descent does not
  terminate.
\<close>

partial_function (option) insertIntoParent ::
  "BTree \<Rightarrow> u32 \<Rightarrow> u64 \<Rightarrow> u32 \<Rightarrow> (error option \<times> BTree) option" where
  "insertIntoParent t leftID key rightID =
     (if leftID = rootID t then
        (let (newRoot, p) = allocPage t kindInternal in
         case writeInternalRoot p leftID [key] [rightID] of
           Inl e \<Rightarrow> Some (Some e, t)
         | Inr p1 \<Rightarrow>
         (case WritePage (tfile t) p1 of
           Inl e \<Rightarrow> Some (Some e, t)
         | Inr (f1, p2) \<Rightarrow>
         (case ReadPage f1 0 of
           Inl e \<Rightarrow> Some (Some e, t\<lparr>tfile := f1\<rparr>)
         | Inr meta \<Rightarrow>
         (case WritePage f1 (meta\<lparr>Data := setMetaRoot (Data meta) newRoot\<rparr>) of
           Inl e \<Rightarrow> Some (Some e, t\<lparr>tfile := f1\<rparr>)
         | Inr (f2, meta') \<Rightarrow> Some (None, \<lparr>tfile = f2, rootID = newRoot\<rparr>)))))
      else
        (case findParentAndIndex (tfile t) (rootID t) leftID key of
           None \<Rightarrow> None
         | Some (Inl e) \<Rightarrow> Some (Some e, t)
         | Some (Inr (parent, idx)) \<Rightarrow>
         (case internalEntries parent of
           Inl e \<Rightarrow> Some (Some e, t)
         | Inr (pkeys0, kids0) \<Rightarrow>
           (let pkeys = insertU64 pkeys0 idx key;
                kids = insertU32 kids0 (idx + 1) rightID
            in if length pkeys \<le> internalCapacity then
                 (case writeInternal parent pkeys kids of
                    Inl e \<Rightarrow> Some (Some e, t)
                  | Inr parent1 \<Rightarrow>
                  (case WritePage (tfile t) parent1 of
                    Inl e \<Rightarrow> Some (Some e, t)
                  | Inr (f1, parent2) \<Rightarrow> Some (None, t\<lparr>tfile := f1\<rparr>)))
               else
                 (let ((leftKeys, leftKids), (rightKeys, rightKids)) =
                        splitInternalArrays pkeys kids
                  in case writeInternal parent leftKeys leftKids of
                    Inl e \<Rightarrow> Some (Some e, t)
                  | Inr parent1 \<Rightarrow>
                  (case WritePage (tfile t) parent1 of
                    Inl e \<Rightarrow> Some (Some e, t)
                  | Inr (f1, parent2) \<Rightarrow>
                  (let (rid, rp) = allocPage (t\<lparr>tfile := f1\<rparr>) kindInternal in
                   case writeInternal rp rightKeys rightKids of
                    Inl e \<Rightarrow> Some (Some e, t\<lparr>tfile := f1\<rparr>)
                  | Inr rp1 \<Rightarrow>
                  (case WritePage f1 rp1 of
                    Inl e \<Rightarrow> Some (Some e, t\<lparr>tfile := f1\<rparr>)
                  | Inr (f2, rp2) \<Rightarrow>
                  (case rightKeys of
                    [] \<Rightarrow> Some (Some Panic, t\<lparr>tfile := f2\<rparr>)
                  | sep # rest \<Rightarrow>
                      insertIntoParent (t\<lparr>tfile := f2\<rparr>) (ID parent) sep rid)))))))))"

definition BTree_Insert :: "BTree \<Rightarrow> u64 \<Rightarrow> RID \<Rightarrow> (error option \<times> BTree) option" where
  "BTree_Insert t key rid =
     (case findLeaf (tfile t) (rootID t) key of
        None \<Rightarrow> None
      | Some (Inl e) \<Rightarrow> Some (Some e, t)
      | Some (Inr leaf) \<Rightarrow>
        if nodeKind (Data leaf) \<noteq> kindLeaf then Some (Some ErrCorruption, t)
        else
        (case leafLeafEntries leaf of
           Inl e \<Rightarrow> Some (Some e, t)
         | Inr (keys0, vals0) \<Rightarrow>
           (let i = sort_Search (length keys0) (\<lambda>i. key \<le> keys0 ! i) in
            if i < length keys0 \<and> keys0 ! i = key then Some (Some ErrDupKey, t)
            else
            (let keys = insertU64 keys0 i key;
                 vals = insertRID vals0 i rid
             in if length keys \<le> leafCapacity then
                  (case writeLeaf leaf keys vals of
                     Inl e \<Rightarrow> Some (Some e, t)
                   | Inr lp \<Rightarrow>
                   (case WritePage (tfile t) lp of
                     Inl e \<Rightarrow> Some (Some e, t)
                   | Inr (f1, lp') \<Rightarrow> Some (None, t\<lparr>tfile := f1\<rparr>)))
                else
                  (let ((leftKeys, leftVals), (rightKeys, rightVals)) =
                         splitLeafArrays keys vals
                   in case writeLeaf leaf leftKeys leftVals of
                     Inl e \<Rightarrow> Some (Some e, t)
                   | Inr lp \<Rightarrow>
                   (case WritePage (tfile t) lp of
                     Inl e \<Rightarrow> Some (Some e, t)
                   | Inr (f1, lp') \<Rightarrow>
                   (let (rightID, rp) = allocPage (t\<lparr>tfile := f1\<rparr>) kindLeaf in
                    case writeLeaf rp rightKeys rightVals of
                     Inl e \<Rightarrow> Some (Some e, t\<lparr>tfile := f1\<rparr>)
                   | Inr rp1 \<Rightarrow>
                   (case WritePage f1 rp1 of
                     Inl e \<Rightarrow> Some (Some e, t\<lparr>tfile := f1\<rparr>)
                   | Inr (f2, rp2) \<Rightarrow>
                   (case rightKeys of
                     [] \<Rightarrow> Some (Some Panic, t\<lparr>tfile := f2\<rparr>)
                   | sep # rest \<Rightarrow>
                       insertIntoParent (t\<lparr>tfile := f2\<rparr>) (ID leaf) sep rightID)))))))))"

text \<open>\<open>storage.RID{}\<close>\<close>

definition RID_zero :: RID where
  "RID_zero = \<lparr>PageID = 0, SlotID = 0\<rparr>"

definition BTree_Get :: "BTree \<Rightarrow> u64 \<Rightarrow> (RID \<times> bool \<times> error option) option" where
  "BTree_Get t key =
     (case findLeaf (tfile t) (rootID t) key of
        None \<Rightarrow> None
      | Some (Inl e) \<Rightarrow> Some (RID_zero, False, Some e)
      | Some (Inr leaf) \<Rightarrow>
        (case leafLeafEntries leaf of
           Inl e \<Rightarrow> Some (RID_zero, False, Some Panic)
         | Inr (keys, vals) \<Rightarrow>
           (let i = sort_Search (length keys) (\<lambda>i. key \<le> keys ! i) in
            if i < length keys \<and> length keys > 0 \<and> keys ! i = key
            then Some (vals ! i, True, None)
            else Some (RID_zero, False, None))))"

text \<open>
  \<open>Open\<close> on the contents \<open>f\<close> of the file at \<open>path\<close> (empty when the file is new).
\<close>

definition BTree_Open :: "osfile \<Rightarrow> error + BTree" where
  "BTree_Open f =
     (if length f = 0 then
        (let meta = (new_page 0)\<lparr>DataSize := of_nat PayloadSize\<rparr>;
             meta = meta\<lparr>Data := setNodeHeader (Data meta) kindMeta 0 0xFFFFFFFF 0\<rparr>
         in case WritePage f meta of
              Inl e \<Rightarrow> Inl e
            | Inr (f1, meta1) \<Rightarrow>
              (let root = (new_page 1)\<lparr>DataSize := of_nat PayloadSize\<rparr>;
                   root = root\<lparr>Data := setNodeHeader (Data root) kindLeaf 0 0xFFFFFFFF 0\<rparr>
               in case WritePage f1 root of
                    Inl e \<Rightarrow> Inl e
                  | Inr (f2, root1) \<Rightarrow>
                    (case WritePage f2 (meta1\<lparr>Data := setMetaRoot (Data meta1) 1\<rparr>) of
                       Inl e \<Rightarrow> Inl e
                     | Inr (f3, meta2) \<Rightarrow> Inr \<lparr>tfile = f3, rootID = 1\<rparr>)))
      else
        (case ReadPage f 0 of
           Inl e \<Rightarrow> Inl e
         | Inr meta \<Rightarrow>
             if nodeKind (Data meta) \<noteq> kindMeta then Inl ErrCorruption
             else Inr \<lparr>tfile = f, rootID = metaRoot (Data meta)\<rparr>))"

text \<open>
  The arrays \<open>insertIntoParent\<close> hands to \<open>splitInternalArrays\<close> when a node overflows:
  \<open>internalCapacity + 1 = 339\<close> keys and 340 children.
\<close>

definition overflow_keys :: "u64 list" where
  "overflow_keys = map of_nat [0..<339]"

definition overflow_kids :: "u32 list" where
  "overflow_kids = map of_nat [2..<342]"


subsection \<open>The shape of a tree built by successful inserts\<close>

text \<open>
  What the pages of the index file decode to: \<open>is_leaf f i l\<close> says that page \<open>i\<close> reads
  back as a leaf holding the keys and values \<open>l\<close>, \<open>is_internal\<close> that it reads back as an
  internal node, \<open>is_meta\<close> that page 0 is a meta page.
\<close>

definition is_leaf :: "osfile \<Rightarrow> u32 \<Rightarrow> u64 list \<times> RID list \<Rightarrow> bool" where
  "is_leaf f i l =
     (case ReadPage f i of
        Inl e \<Rightarrow> False
      | Inr p \<Rightarrow> ID p = i \<and> nodeKind (Data p) = kindLeaf \<and> leafLeafEntries p = Inr l)"

definition is_internal :: "osfile \<Rightarrow> u32 \<Rightarrow> u64 list \<Rightarrow> u32 list \<Rightarrow> bool" where
  "is_internal f i seps kids =
     (case ReadPage f i of
        Inl e \<Rightarrow> False
      | Inr p \<Rightarrow>
          ID p = i \<and> nodeKind (Data p) = kindInternal \<and> internalEntries p = Inr (seps, kids))"

definition is_meta :: "osfile \<Rightarrow> bool" where
  "is_meta f =
     (case ReadPage f 0 of
        Inl e \<Rightarrow> False
      | Inr p \<Rightarrow> ID p = 0 \<and> nodeKind (Data p) = kindMeta)"

text \<open>The child index the descent takes at a node with separator keys \<open>seps\<close>.\<close>

definition route :: "u64 list \<Rightarrow> u64 \<Rightarrow> nat" where
  "route seps key = sort_Search (length seps) (\<lambda>i. key < seps ! i)"

text \<open>The position \<open>Insert\<close> and \<open>Get\<close> compute in a leaf.\<close>

definition leaf_pos :: "u64 list \<Rightarrow> u64 \<Rightarrow> nat" where
  "leaf_pos keys key = sort_Search (length keys) (\<lambda>i. key \<le> keys ! i)"

text \<open>
  Leaf number \<open>i\<close> under separators \<open>seps\<close>: strictly ascending keys, one value per key,
  within capacity, and every key at least \<open>seps ! (i - 1)\<close> and below \<open>seps ! i\<close>.
\<close>

definition leaf_ok :: "u64 list \<Rightarrow> nat \<Rightarrow> u64 list \<times> RID list \<Rightarrow> bool" where
  "leaf_ok seps i l \<longleftrightarrow>
     sorted_wrt (<) (fst l) \<and> length (snd l) = length (fst l) \<and>
     length (fst l) \<le> leafCapacity \<and> (seps \<noteq> [] \<longrightarrow> fst l \<noteq> []) \<and>
     (\<forall>k \<in> set (fst l). (0 < i \<longrightarrow> seps ! (i - 1) \<le> k) \<and> (i < length seps \<longrightarrow> k < seps ! i))"

text \<open>
  A tree of height at most two: page 0 is the meta page, the pages \<open>kids\<close> are the leaves
  \<open>leaves\<close> from left to right, and \<open>seps\<close> are the separators between them. With no
  separator the single leaf is the root; otherwise the root is the internal node
  \<open>(seps, kids)\<close>. The file holds these pages and no other.
\<close>

definition tree_shape ::
  "BTree \<Rightarrow> u64 list \<Rightarrow> u32 list \<Rightarrow> (u64 list \<times> RID list) list \<Rightarrow> bool" where
  "tree_shape t seps kids leaves \<longleftrightarrow>
     length (tfile t) mod PageSize = 0 \<and>
     length (tfile t) div PageSize = length kids + (if seps = [] then 1 else 2) \<and>
     length kids = length seps + 1 \<and> length leaves = length kids \<and>
     length seps \<le> internalCapacity \<and>
     sorted_wrt (<) seps \<and> distinct kids \<and> is_meta (tfile t) \<and>
     (\<forall>i < length kids.
        kids ! i \<noteq> 0 \<and> unat (kids ! i) < length (tfile t) div PageSize \<and>
        is_leaf (tfile t) (kids ! i) (leaves ! i) \<and> leaf_ok seps i (leaves ! i)) \<and>
     (if seps = [] then rootID t = kids ! 0
      else rootID t \<noteq> 0 \<and> rootID t \<notin> set kids \<and>
           unat (rootID t) < length (tfile t) div PageSize \<and>
           is_internal (tfile t) (rootID t) seps kids)"

text \<open>The key/value pairs a leaf, and a list of leaves, hold.\<close>

definition leaf_pairs :: "u64 list \<times> RID list \<Rightarrow> (u64 \<times> RID) set" where
  "leaf_pairs l = set (zip (fst l) (snd l))"

definition tree_pairs :: "(u64 list \<times> RID list) list \<Rightarrow> (u64 \<times> RID) set" where
  "tree_pairs leaves = (\<Union>l \<in> set leaves. leaf_pairs l)"

text \<open>A sequence of inserts in which every call succeeds.\<close>

fun bt_inserts :: "BTree \<Rightarrow> (u64 \<times> RID) list \<Rightarrow> BTree option" where
  "bt_inserts t [] = Some t"
| "bt_inserts t ((k, r) # kvs) =
     (case BTree_Insert t k r of
        Some (None, t') \<Rightarrow> bt_inserts t' kvs
      | _ \<Rightarrow> None)"

section \<open>Properties of the byte and slotted-page layer\<close>

lemma length_le_bytes [simp]: "length (le_bytes n w) = n"
  by (induction n arbitrary: w) auto

lemma le_word_le_bytes:
  "(le_word (le_bytes n w) :: 'a::len word) = take_bit (8 * n) (w :: 'a word)"
proof (induction n arbitrary: w)
  case 0
  show ?case by simp
next
  case (Suc n)
  show ?case
    by (simp add: Suc) (rule bit_word_eqI, auto simp: bit_simps)
qed

lemma le_word_le_bytes_u16 [simp]: "le_word (le_bytes 2 (v::u16)) = v"
  by (simp add: le_word_le_bytes take_bit_word_eq_self)

lemma le_word_le_bytes_u32 [simp]: "le_word (le_bytes 4 (v::u32)) = v"
  by (simp add: le_word_le_bytes take_bit_word_eq_self)

lemma le_word_le_bytes_u64 [simp]: "le_word (le_bytes 8 (v::u64)) = v"
  by (simp add: le_word_le_bytes take_bit_word_eq_self)

lemma length_put_bytes [simp]:
  "a + length bs \<le> length d \<Longrightarrow> length (put_bytes d a bs) = length d"
  by (simp add: put_bytes_def)

lemma length_get_bytes [simp]:
  "a + n \<le> length d \<Longrightarrow> length (get_bytes d a n) = n"
  by (simp add: get_bytes_def)

lemma get_put_same:
  "a + length bs \<le> length d \<Longrightarrow> n = length bs \<Longrightarrow> get_bytes (put_bytes d a bs) a n = bs"
  by (simp add: put_bytes_def get_bytes_def)

lemma get_put_disj:
  "b + length bs \<le> length d \<Longrightarrow> a + n \<le> b \<or> b + length bs \<le> a \<Longrightarrow>
   get_bytes (put_bytes d b bs) a n = get_bytes d a n"
  by (auto simp add: put_bytes_def get_bytes_def drop_take min_def)

lemma nth_put_bytes:
  "a + length bs \<le> length d \<Longrightarrow> i < length d \<Longrightarrow>
   put_bytes d a bs ! i = (if a \<le> i \<and> i < a + length bs then bs ! (i - a) else d ! i)"
  by (auto simp add: put_bytes_def nth_append)

lemma get_u16_put_u16_same [simp]:
  "a + 2 \<le> length d \<Longrightarrow> get_u16 (put_u16 d a v) a = v"
  by (simp add: get_u16_def put_u16_def get_put_same)

lemma get_u16_put_u16_disj [simp]:
  "b + 2 \<le> length d \<Longrightarrow> a + 2 \<le> b \<or> b + 2 \<le> a \<Longrightarrow>
   get_u16 (put_u16 d b v) a = get_u16 d a"
  by (simp add: get_u16_def put_u16_def get_put_disj)

lemma length_put_u16 [simp]: "a + 2 \<le> length d \<Longrightarrow> length (put_u16 d a v) = length d"
  by (simp add: put_u16_def)

lemma header_setHeader:
  "6 \<le> length (Data p) \<Longrightarrow> header (setHeader p sc fs fe) = (sc, fs, fe)"
  by (simp add: header_def setHeader_def)

lemma InitIfFresh_cases:
  "InitIfFresh p =
     (if header p = (0, 0, 0) then setHeader p 0 6 4086
      else if DataSize p = 0 then p\<lparr>DataSize := 4086\<rparr> else p)"
  by (auto simp: InitIfFresh_def setHeader_def split: prod.splits)

lemma InitIfFresh_header:
  "page_ok p \<Longrightarrow> header (InitIfFresh p) = (if header p = (0, 0, 0) then (0, 6, 4086) else header p)"
  by (auto simp: InitIfFresh_cases header_setHeader page_ok_def) (simp add: header_def)

lemma InitIfFresh_DataSize:
  "DataSize (InitIfFresh p) =
     (if header p = (0, 0, 0) \<or> DataSize p = 0 then 4086 else DataSize p)"
  by (auto simp: InitIfFresh_cases setHeader_def)

lemma InitIfFresh_idem:
  "page_ok p \<Longrightarrow> InitIfFresh (InitIfFresh p) = InitIfFresh p"
  apply (subst (1) InitIfFresh_cases)
  apply (simp add: InitIfFresh_header InitIfFresh_DataSize)
  done

lemma freeSpace_nat:
  "header p = (sc, fs, fe) \<Longrightarrow> freeSpace p = int (unat fe) - int (unat fs) - 4 * int (unat sc)"
  by (simp add: freeSpace_def)

lemma slotPos_small:
  "unat i < 1021 \<Longrightarrow> slotPos i = int (4082 - 4 * unat i)"
proof -
  assume a: "unat i < 1021"
  have "unat (i + 1) = unat i + 1"
    using a by (simp add: unat_word_ariths)
  then have "uint (i + 1) = int (unat i + 1)"
    by (simp only: uint_nat)
  then show ?thesis using a by (simp add: slotPos_def del: of_nat_unat)
qed

lemma copy_at_fits:
  "a + length src \<le> length d \<Longrightarrow> copy_at d a src = put_bytes d a src"
  by (simp add: copy_at_def)

lemma setSlot_ok:
  assumes a: "unat i < 1021" and len: "length (Data p) = PayloadSize"
  shows "setSlot p i off ln =
     Inr (p\<lparr>Data := put_u16 (put_u16 (Data p) (4082 - 4 * unat i) off) (4084 - 4 * unat i) ln\<rparr>)"
proof -
  have pos: "slotPos i = int (4082 - 4 * unat i)" using a by (rule slotPos_small)
  have n1: "nat (slotPos i) = 4082 - 4 * unat i" by (simp only: pos nat_int)
  have n2: "nat (slotPos i) + 2 = 4084 - 4 * unat i" using a unfolding n1 by arith
  have c1: "\<not> (slotPos i < 0 \<or> slotPos i + 2 > int (length (Data p)))"
    using a unfolding pos len by arith
  have c2: "\<not> (slotPos i + 4 > int (length (Data p)))"
    using a unfolding pos len by arith
  show ?thesis
    unfolding setSlot_def Let_def using c1 c2 by (simp only: n1 n2 if_False) (simp add: n2 [unfolded n1, simplified])
qed

lemma Insert_success:
  assumes ok: "page_ok p" and h: "header p = (sc, fs, fe)"
    and b1: "6 \<le> unat fs" and b2: "unat fs \<le> unat fe" and b3: "unat fe \<le> PayloadSize"
    and l: "length rec \<le> 65535" and sp: "int (length rec) + 4 \<le> freeSpace p"
  shows "SlottedPage_Insert p rec =
     (Inr sc,
      setHeader
        (p\<lparr>Data := put_u16 (put_u16 (put_bytes (Data p) (unat fs) rec)
                         (4082 - 4 * unat sc) fs) (4084 - 4 * unat sc) (of_nat (length rec))\<rparr>)
        (sc + 1) (fs + of_nat (length rec)) (fe - 4))"
proof -
  from sp h have "int (length rec) + 4 \<le> uint fe - uint fs - 4 * uint sc"
    by (simp add: freeSpace_def)
  then have room: "unat fs + length rec + 4 + 4 * unat sc \<le> unat fe"
    unfolding uint_nat by linarith
  with b3 have sc: "unat sc < 1021" by simp
  from ok have len: "length (Data p) = PayloadSize" by (simp add: page_ok_def)
  have fits: "unat fs + length rec \<le> length (Data p)" using room b3 len by simp
  let ?p1 = "p\<lparr>Data := put_bytes (Data p) (unat fs) rec\<rparr>"
  have len1: "length (Data ?p1) = PayloadSize" using fits len by simp
  show ?thesis
    using l sp h fits len
    by (simp add: SlottedPage_Insert_def setSlot_ok [OF sc len1] copy_at_fits Let_def)
qed

lemma Insert_TooLarge: "(fst (SlottedPage_Insert p rec) = Inl ErrDataTooLarge) = (length rec > 65535)"
  by (auto simp: SlottedPage_Insert_def Let_def setSlot_def split: prod.splits sum.splits if_splits)

lemma Insert_NoSpace:
  "length rec \<le> 65535 \<Longrightarrow>
   (fst (SlottedPage_Insert p rec) = Inl ErrNoSpace) = (freeSpace p < int (length rec) + 4)"
  by (auto simp: SlottedPage_Insert_def Let_def setSlot_def split: prod.splits sum.splits if_splits)

lemma Insert_fst:
  assumes v: "sp_valid p"
  shows "fst (SlottedPage_Insert p rec) =
     (if length rec > 65535 then Inl ErrDataTooLarge
      else if freeSpace p < int (length rec) + 4 then Inl ErrNoSpace
      else Inr (fst (header p)))"
proof -
  obtain sc fs fe where h: "header p = (sc, fs, fe)" by (cases "header p")
  show ?thesis
  proof (cases "length rec \<le> 65535 \<and> int (length rec) + 4 \<le> freeSpace p")
    case True
    with v h show ?thesis
      by (simp add: Insert_success [where sc = sc and fs = fs and fe = fe] sp_valid_def)
  next
    case False
    then show ?thesis by (auto simp: SlottedPage_Insert_def)
  qed
qed

lemma Insert_snd_fail:
  "length rec > 65535 \<or> freeSpace p < int (length rec) + 4 \<Longrightarrow> snd (SlottedPage_Insert p rec) = p"
  by (auto simp: SlottedPage_Insert_def)

lemma word_facts:
  fixes sc fs fe :: u16
  assumes room: "unat fs + n + 4 + 4 * unat sc \<le> unat fe" and b3: "unat fe \<le> PayloadSize"
  shows "unat (of_nat n :: u16) = n" "unat (sc + 1) = unat sc + 1"
    "unat (fs + of_nat n) = unat fs + n" "unat (fe - 4) + 4 = unat fe"
proof -
  show n: "unat (of_nat n :: u16) = n" using room b3 by (simp add: unat_of_nat)
  show "unat (sc + 1) = unat sc + 1" using room b3 by (simp add: unat_word_ariths)
  show "unat (fs + of_nat n) = unat fs + n" using room b3 n by (simp add: unat_word_ariths)
  have "4 \<le> fe" using room by (simp add: word_le_nat_alt)
  then have "unat (fe - 4) = unat fe - 4" by (simp add: unat_sub)
  then show "unat (fe - 4) + 4 = unat fe" using room by simp
qed

lemma get_bytes_put_u16_disj [simp]:
  "b + 2 \<le> length d \<Longrightarrow> a + n \<le> b \<or> b + 2 \<le> a \<Longrightarrow>
   get_bytes (put_u16 d b v) a n = get_bytes d a n"
  by (simp add: put_u16_def get_put_disj)

lemma get_u16_put_bytes_disj [simp]:
  "b + length bs \<le> length d \<Longrightarrow> a + 2 \<le> b \<or> b + length bs \<le> a \<Longrightarrow>
   get_u16 (put_bytes d b bs) a = get_u16 d a"
  by (simp add: get_u16_def get_put_disj)

lemma get_bytes_put_u16_before [simp]:
  "b + 2 \<le> length d \<Longrightarrow> a + n \<le> b \<Longrightarrow> get_bytes (put_u16 d b v) a n = get_bytes d a n"
  by (simp add: put_u16_def get_put_disj)

lemma get_bytes_put_u16_after [simp]:
  "b + 2 \<le> length d \<Longrightarrow> b + 2 \<le> a \<Longrightarrow> get_bytes (put_u16 d b v) a n = get_bytes d a n"
  by (simp add: put_u16_def get_put_disj)

lemma get_u16_put_u16_before [simp]:
  "b + 2 \<le> length d \<Longrightarrow> a + 2 \<le> b \<Longrightarrow> get_u16 (put_u16 d b v) a = get_u16 d a"
  by simp

lemma get_u16_put_u16_after [simp]:
  "b + 2 \<le> length d \<Longrightarrow> b + 2 \<le> a \<Longrightarrow> get_u16 (put_u16 d b v) a = get_u16 d a"
  by simp

lemma get_u16_put_bytes_before [simp]:
  "b + length bs \<le> length d \<Longrightarrow> a + 2 \<le> b \<Longrightarrow> get_u16 (put_bytes d b bs) a = get_u16 d a"
  by simp

lemma get_u16_put_bytes_after [simp]:
  "b + length bs \<le> length d \<Longrightarrow> b + length bs \<le> a \<Longrightarrow> get_u16 (put_bytes d b bs) a = get_u16 d a"
  by simp

lemma Insert_success_props:
  assumes ok: "page_ok p" and h: "header p = (sc, fs, fe)"
    and b1: "6 \<le> unat fs" and b2: "unat fs \<le> unat fe" and b3: "unat fe \<le> PayloadSize"
    and l: "length rec \<le> 65535" and sp: "int (length rec) + 4 \<le> freeSpace p"
    and p': "p' = snd (SlottedPage_Insert p rec)"
  shows "fst (SlottedPage_Insert p rec) = Inr sc"
    and "length (Data p') = PayloadSize"
    and "header p' = (sc + 1, fs + of_nat (length rec), fe - 4)"
    and "get_bytes (Data p') (unat fs) (length rec) = rec"
    and "get_u16 (Data p') (4082 - 4 * unat sc) = fs"
    and "get_u16 (Data p') (4084 - 4 * unat sc) = of_nat (length rec)"
    and "DataSize p' = 4086" and "ID p' = ID p"
proof -
  from sp h have "int (length rec) + 4 \<le> uint fe - uint fs - 4 * uint sc"
    by (simp add: freeSpace_def)
  then have room: "unat fs + length rec + 4 + 4 * unat sc \<le> unat fe"
    unfolding uint_nat by linarith
  from ok have len: "length (Data p) = PayloadSize" by (simp add: page_ok_def)
  note eq = Insert_success [OF ok h b1 b2 b3 l sp]
  show "fst (SlottedPage_Insert p rec) = Inr sc" by (simp add: eq)
  show "length (Data p') = PayloadSize"
    using room b3 len b1 by (simp add: p' eq setHeader_def)
  show "header p' = (sc + 1, fs + of_nat (length rec), fe - 4)"
    using room b3 len b1 by (simp add: p' eq header_setHeader)
  show "get_bytes (Data p') (unat fs) (length rec) = rec"
    using room b3 len b1 by (simp add: p' eq setHeader_def get_put_same)
  show "get_u16 (Data p') (4082 - 4 * unat sc) = fs"
    using room b3 len b1 by (simp add: p' eq setHeader_def)
  show "get_u16 (Data p') (4084 - 4 * unat sc) = of_nat (length rec)"
    using room b3 len b1 by (simp add: p' eq setHeader_def)
  show "DataSize p' = 4086" by (simp add: p' eq setHeader_def)
  show "ID p' = ID p" by (simp add: p' eq setHeader_def)
qed

lemma le_word_replicate_zero [simp]: "le_word (replicate n 0) = 0"
  by (induction n) simp_all

lemma header_new_page: "header (new_page i) = (0, 0, 0)"
  by (simp add: header_def new_page_def get_u16_def get_bytes_def)

lemma InitIfFresh_new_page: "InitIfFresh (new_page i) = setHeader (new_page i) 0 6 4086"
  by (simp add: InitIfFresh_cases header_new_page)

lemma fresh_header: "header (InitIfFresh (new_page i)) = (0, 6, 4086)"
  by (simp add: InitIfFresh_new_page) (simp add: header_setHeader new_page_def)

lemma page_ok_setHeader: "page_ok p \<Longrightarrow> page_ok (setHeader p a b c)"
  by (simp add: page_ok_def setHeader_def)

lemma page_ok_new_page: "page_ok (new_page i)"
  by (simp add: page_ok_def new_page_def)

lemma fresh_valid: "sp_valid (InitIfFresh (new_page i))"
proof -
  have "page_ok (InitIfFresh (new_page i))"
    by (simp add: InitIfFresh_new_page page_ok_setHeader page_ok_new_page)
  then show ?thesis by (simp add: sp_valid_def fresh_header)
qed


section \<open>Properties of the page codec and the file\<close>


lemma crc_round_top: "bit (crc_round c) 31 = bit c 0"
  by (auto simp: crc_round_def bit_simps dest: bit_imp_le_length)

lemma crc_round_rest:
  "n < 31 \<Longrightarrow> bit (crc_round c) n = (bit c (Suc n) \<noteq> (bit c 0 \<and> bit (0xEDB88320 :: u32) n))"
  by (auto simp: crc_round_def bit_simps simp del: bit_numeral_simps)

lemma crc_round_inj: "crc_round a = crc_round b \<Longrightarrow> a = b"
proof (rule bit_word_eqI)
  fix n
  assume eq: "crc_round a = crc_round b" and n: "n < LENGTH(32)"
  have z: "bit a 0 = bit b 0" using crc_round_top [of a] crc_round_top [of b] eq by simp
  show "bit a n = bit b n"
  proof (cases n)
    case 0
    then show ?thesis using z by simp
  next
    case (Suc m)
    then have m: "m < 31" using n by simp
    from crc_round_rest [OF m, of a] crc_round_rest [OF m, of b] eq z
    show ?thesis unfolding Suc by metis
  qed
qed

lemma crc_rounds_inj: "(crc_round ^^ k) a = (crc_round ^^ k) b \<Longrightarrow> a = b"
  by (induction k) (auto dest: crc_round_inj)

lemma ucast_byte_inj: "(ucast (x::byte) :: u32) = ucast y \<Longrightarrow> x = y"
proof (rule bit_word_eqI)
  fix n assume eq: "(ucast x :: u32) = ucast y" and n: "n < LENGTH(8)"
  have "bit (ucast x :: u32) n = bit (ucast y :: u32) n" using eq by simp
  then show "bit x n = bit y n" using n by (simp add: bit_simps)
qed

lemma xor_cancel_right: "(a::u32) XOR u = b XOR u \<Longrightarrow> a = b"
proof -
  assume "a XOR u = b XOR u"
  then have "(a XOR u) XOR u = (b XOR u) XOR u" by simp
  then show ?thesis by (simp add: xor.assoc)
qed

lemma xor_cancel_left: "(c::u32) XOR u = c XOR v \<Longrightarrow> u = v"
  using xor_cancel_right [of u c v] by (simp add: xor.commute)

lemma crc_byte_inj_state: "crc_byte a x = crc_byte b x \<Longrightarrow> a = b"
  by (auto simp: crc_byte_def dest!: crc_rounds_inj xor_cancel_right)

lemma crc_byte_inj_byte: "crc_byte c x = crc_byte c y \<Longrightarrow> x = y"
  by (auto simp: crc_byte_def dest!: crc_rounds_inj xor_cancel_left ucast_byte_inj)

lemma foldl_crc_inj_state: "foldl crc_byte a xs = foldl crc_byte b xs \<Longrightarrow> a = b"
  by (induction xs arbitrary: a b) (auto dest: crc_byte_inj_state)

lemma ChecksumIEEE_single_byte:
  assumes j: "j < length xs" and b: "b \<noteq> xs ! j"
  shows "ChecksumIEEE (xs[j := b]) \<noteq> ChecksumIEEE xs"
proof
  assume eq: "ChecksumIEEE (xs[j := b]) = ChecksumIEEE xs"
  have xs: "xs = take j xs @ xs ! j # drop (Suc j) xs" using j by (simp add: id_take_nth_drop)
  have ys: "xs[j := b] = take j xs @ b # drop (Suc j) xs" using j by (simp add: upd_conv_take_nth_drop)
  from eq have "foldl crc_byte (NOT 0) (xs[j := b]) = foldl crc_byte (NOT 0) xs"
    by (simp add: ChecksumIEEE_def)
  then have "foldl crc_byte (NOT 0) (take j xs @ b # drop (Suc j) xs)
      = foldl crc_byte (NOT 0) (take j xs @ xs ! j # drop (Suc j) xs)"
    using xs ys by simp
  then have "crc_byte (foldl crc_byte (NOT 0) (take j xs)) b
      = crc_byte (foldl crc_byte (NOT 0) (take j xs)) (xs ! j)"
    by (simp del: foldl_Cons add: foldl_Cons [symmetric]) (auto dest: foldl_crc_inj_state)
  then show False using b by (auto dest: crc_byte_inj_byte)
qed

lemma page_buf_eq:
  "length (Data p) = PayloadSize \<Longrightarrow>
   page_buf p = le_bytes 4 (ID p) @ le_bytes 4 (Checksum p) @ le_bytes 2 (DataSize p) @ Data p"
  by (simp add: page_buf_def Let_def put_u32_def put_u16_def copy_at_def put_bytes_def)

lemma length_WriteAt:
  "length (WriteAt f buf off) = max (length f) (off + length buf)"
  by (simp add: WriteAt_def)

lemma WriteAt_prefix_length: "length (take off (f @ replicate (off - length f) 0)) = off"
  by simp

lemma ReadAt_WriteAt_same: "ReadAt (WriteAt f buf off) (length buf) off = Inr buf"
proof -
  have l: "length (take off (f @ replicate (off - length f) (0::byte))) = off" by simp
  have "drop off (WriteAt f buf off) = buf @ drop (off + length buf) f"
    unfolding WriteAt_def using l by (metis append_eq_conv_conj)
  then show ?thesis by (simp add: ReadAt_def length_WriteAt)
qed

lemma ReadAt_WriteAt_before:
  assumes "off' + n \<le> off" "off' + n \<le> length f"
  shows "ReadAt (WriteAt f buf off) n off' = ReadAt f n off'"
proof -
  have "take n (drop off' (WriteAt f buf off)) = take n (drop off' f)"
    using assms by (simp add: WriteAt_def drop_take min_def)
  then show ?thesis using assms by (simp add: ReadAt_def length_WriteAt)
qed

lemma ReadAt_WriteAt_after:
  assumes "off + length buf \<le> off'" "off' + n \<le> length f"
  shows "ReadAt (WriteAt f buf off) n off' = ReadAt f n off'"
proof -
  have l: "length (take off (f @ replicate (off - length f) (0::byte))) = off" by simp
  have "drop off' (WriteAt f buf off) = drop off' f"
    using assms l by (simp add: WriteAt_def)
  then show ?thesis using assms by (simp add: ReadAt_def length_WriteAt)
qed

lemma decode_page_buf:
  "length (Data p) = PayloadSize \<Longrightarrow> decode_page (page_buf p) = (p :: page)"
  by (simp add: page_buf_eq decode_page_def get_u32_def get_u16_def get_bytes_def)

lemma length_page_buf: "length (Data p) = PayloadSize \<Longrightarrow> length (page_buf p) = PageSize"
  by (simp add: page_buf_eq)

lemma WritePage_ok:
  "page_ok p \<Longrightarrow> unat (DataSize p) \<le> PayloadSize \<Longrightarrow>
   WritePage f p =
     Inr (WriteAt f (page_buf (p\<lparr>Checksum := ChecksumIEEE (take (unat (DataSize p)) (Data p))\<rparr>))
            (pageOffset (ID p)),
          p\<lparr>Checksum := ChecksumIEEE (take (unat (DataSize p)) (Data p))\<rparr>)"
  by (simp add: WritePage_def ComputeChecksum_def page_ok_def Let_def)

lemma WritePage_fail:
  "unat (DataSize p) > PayloadSize \<Longrightarrow> WritePage f p = Inl ErrDataTooLarge"
  by (simp add: WritePage_def)

lemma ReadPage_decode:
  "ReadPage f i =
     (case ReadAt f PageSize (pageOffset i) of
        Inl e \<Rightarrow> Inl e
      | Inr buf \<Rightarrow>
          (case ComputeChecksum (decode_page buf) of
               Inl e \<Rightarrow> Inl e
             | Inr c \<Rightarrow> if c \<noteq> Checksum (decode_page buf) then Inl ErrChecksumMismatch
                        else Inr (decode_page buf)))"
  by (simp add: ReadPage_def decode_page_def Let_def split: sum.splits)

lemma ReadPage_WritePage_same:
  assumes ok: "page_ok p" and w: "WritePage f p = Inr (f', p')"
  shows "ReadPage f' (ID p) = Inr p'"
proof -
  from w have ds: "unat (DataSize p) \<le> PayloadSize"
    by (auto simp: WritePage_def split: if_splits)
  let ?q = "p\<lparr>Checksum := ChecksumIEEE (take (unat (DataSize p)) (Data p))\<rparr>"
  from w WritePage_ok [OF ok ds, of f]
  have f': "f' = WriteAt f (page_buf ?q) (pageOffset (ID p))" and p': "p' = ?q" by auto
  have lq: "length (Data ?q) = PayloadSize" using ok by (simp add: page_ok_def)
  have r: "ReadAt f' PageSize (pageOffset (ID p)) = Inr (page_buf ?q)"
    unfolding f' using ReadAt_WriteAt_same [of f "page_buf ?q"] length_page_buf [OF lq] by simp
  show ?thesis
    using ds lq by (simp add: ReadPage_decode r decode_page_buf [OF lq] ComputeChecksum_def p')
qed

lemma page_ok_ReadPage: "ReadPage f i = Inr p \<Longrightarrow> page_ok p"
  by (auto simp: ReadPage_def ReadAt_def ComputeChecksum_def page_ok_def Let_def
           split: if_splits sum.splits)

lemma WriteAt_drop:
  "drop off (WriteAt f buf off) = buf @ drop (off + length buf) f"
proof -
  have l: "length (take off (f @ replicate (off - length f) (0::byte))) = off" by simp
  show ?thesis unfolding WriteAt_def using l by (metis append_eq_conv_conj)
qed

lemma take_drop_update:
  "off \<le> k \<Longrightarrow> k < off + n \<Longrightarrow> off + n \<le> length xs \<Longrightarrow>
   take n (drop off (xs[k := b])) = (take n (drop off xs))[k - off := b]"
  by (simp add: drop_update_swap take_update_swap)

lemma decode_page_update:
  assumes l: "length (Data p) = PayloadSize" and j: "j < PayloadSize"
  shows "decode_page ((page_buf p)[HeaderSize + j := b]) = p\<lparr>Data := (Data p)[j := b]\<rparr>"
proof -
  have e: "page_buf p = (le_bytes 4 (ID p) @ le_bytes 4 (Checksum p) @ le_bytes 2 (DataSize p)) @ Data p"
    using l by (simp add: page_buf_eq)
  have u: "(page_buf p)[HeaderSize + j := b]
      = (le_bytes 4 (ID p) @ le_bytes 4 (Checksum p) @ le_bytes 2 (DataSize p)) @ (Data p)[j := b]"
    unfolding e by (simp add: list_update_append)
  show ?thesis
    unfolding u using l
    by (simp add: decode_page_def get_u32_def get_u16_def get_bytes_def)
qed

lemma checksum_sensitivity_aux:
  assumes ok: "page_ok p" and w: "WritePage f p = Inr (f', p')"
    and k1: "pageOffset (ID p) + HeaderSize \<le> k"
    and k2: "k < pageOffset (ID p) + HeaderSize + unat (DataSize p)"
    and b: "b \<noteq> f' ! k"
  shows "ReadPage (f'[k := b]) (ID p) = Inl ErrChecksumMismatch"
proof -
  from w have ds: "unat (DataSize p) \<le> PayloadSize"
    by (auto simp: WritePage_def split: if_splits)
  let ?q = "p\<lparr>Checksum := ChecksumIEEE (take (unat (DataSize p)) (Data p))\<rparr>"
  let ?off = "pageOffset (ID p)"
  from w WritePage_ok [OF ok ds, of f]
  have f': "f' = WriteAt f (page_buf ?q) ?off" and p': "p' = ?q" by auto
  have lq: "length (Data ?q) = PayloadSize" using ok by (simp add: page_ok_def)
  have lb: "length (page_buf ?q) = PageSize" by (rule length_page_buf [OF lq])
  have lf: "?off + PageSize \<le> length f'" unfolding f' by (simp add: length_WriteAt lb)
  have old: "take PageSize (drop ?off f') = page_buf ?q"
    unfolding f' by (simp add: WriteAt_drop lb)
  define j where "j = k - ?off - HeaderSize"
  have kj: "k - ?off = HeaderSize + j" and jd: "j < unat (DataSize p)"
    using k1 k2 by (simp_all add: j_def)
  have jl: "j < PayloadSize" using jd ds by simp
  have kr: "?off \<le> k" "k < ?off + PageSize" using k1 k2 ds by simp_all
  have rd: "ReadAt (f'[k := b]) PageSize ?off = Inr ((page_buf ?q)[HeaderSize + j := b])"
    using lf kr by (simp add: ReadAt_def take_drop_update old kj)
  have "f' ! k = (take PageSize (drop ?off f')) ! (k - ?off)"
    using kr lf by simp
  also have "\<dots> = (page_buf ?q) ! (HeaderSize + j)" by (simp only: old kj)
  also have "\<dots> = Data p ! j" using lq by (simp add: page_buf_eq nth_append)
  finally have fk: "f' ! k = Data p ! j" .
  have ne: "ChecksumIEEE ((take (unat (DataSize p)) (Data p))[j := b])
      \<noteq> ChecksumIEEE (take (unat (DataSize p)) (Data p))"
    using b fk jd lq ds by (intro ChecksumIEEE_single_byte) simp_all
  have tk: "take (unat (DataSize p)) ((Data p)[j := b]) = (take (unat (DataSize p)) (Data p))[j := b]"
    using jd by (simp add: take_update_swap)
  show ?thesis
    using ds lq ne
    by (simp add: ReadPage_decode rd decode_page_update [OF lq jl] ComputeChecksum_def tk)
qed

lemma page_round_trip_aux:
  assumes ok: "page_ok p" and ds: "unat (DataSize p) \<le> PayloadSize"
  shows "\<exists>f' q. WritePage f p = Inr (f', q) \<and> ReadPage f' (ID p) = Inr q \<and>
           ID q = ID p \<and> DataSize q = DataSize p \<and> Data q = Data p"
proof -
  let ?q = "p\<lparr>Checksum := ChecksumIEEE (take (unat (DataSize p)) (Data p))\<rparr>"
  let ?f = "WriteAt f (page_buf ?q) (pageOffset (ID p))"
  have w: "WritePage f p = Inr (?f, ?q)" by (rule WritePage_ok [OF ok ds])
  have r: "ReadPage ?f (ID p) = Inr ?q" by (rule ReadPage_WritePage_same [OF ok w])
  show ?thesis using w r by simp
qed

lemma sample_page_ok: "page_ok sample_page"
  by (simp add: sample_page_def page_ok_def)

lemma sample_page_fields:
  "ID sample_page = 7" "unat (DataSize sample_page) = 2" "take 2 (Data sample_page) = [0x68, 0x69]"
  by (simp_all add: sample_page_def)


section \<open>Properties of the heap file\<close>


lemma pg_inv_valid: "pg_inv p \<Longrightarrow> sp_valid p"
  by (auto simp: pg_inv_def sp_valid_def split: prod.splits)

lemma getSlot_ok:
  assumes inv: "pg_inv p" and h: "header p = (sc, fs, fe)" and s: "s < sc"
  shows "getSlot p s = Inr (slot_at p (unat s))"
proof -
  from s have su: "unat s < unat sc" by (simp add: word_less_nat_alt)
  from inv h have tot: "unat fe + 4 * unat sc = PayloadSize" and len: "length (Data p) = PayloadSize"
    by (simp_all add: pg_inv_def page_ok_def)
  from su tot have sm: "unat s < 1021" by simp
  have pos: "slotPos s = int (4082 - 4 * unat s)" using sm by (rule slotPos_small)
  have n1: "nat (slotPos s) = 4082 - 4 * unat s" by (simp only: pos nat_int)
  have n2: "nat (slotPos s) + 2 = 4084 - 4 * unat s" using sm unfolding n1 by arith
  have c: "\<not> (slotPos s < 0 \<or> slotPos s + 4 > int (length (Data p)))"
    using sm unfolding pos len by arith
  show ?thesis
    unfolding getSlot_def h Let_def slot_at_def using s c
    by (simp only: n1 n2 prod.case if_False) (simp add: n2 [unfolded n1, simplified])
qed

lemma getSlot_bad: "header p = (sc, fs, fe) \<Longrightarrow> sc \<le> s \<Longrightarrow> getSlot p s = Inl ErrBadSlotID"
  by (simp add: getSlot_def)

lemma Read_ok:
  assumes inv: "pg_inv p" and h: "header p = (sc, fs, fe)" and s: "s < sc"
  shows "SlottedPage_Read p s =
     (if snd (slot_at p (unat s)) = 0 then Inl ErrSlotDeleted
      else Inr (get_bytes (Data p) (unat (fst (slot_at p (unat s)))) (unat (snd (slot_at p (unat s))))))"
proof -
  from s have su: "unat s < unat sc" by (simp add: word_less_nat_alt)
  from inv h su have b: "unat (fst (slot_at p (unat s))) + unat (snd (slot_at p (unat s))) \<le> unat fs"
    and f: "unat fs \<le> unat fe" and tot: "unat fe + 4 * unat sc = PayloadSize"
    and len: "length (Data p) = PayloadSize"
    by (simp_all add: pg_inv_def page_ok_def)
  then have "unat (fst (slot_at p (unat s))) + unat (snd (slot_at p (unat s))) \<le> length (Data p)"
    by simp
  then show ?thesis
    by (cases "slot_at p (unat s)") (simp add: SlottedPage_Read_def getSlot_ok [OF inv h s])
qed

lemma pg_inv_D:
  assumes "pg_inv p" "header p = (sc, fs, fe)"
  shows "page_ok p" "length (Data p) = PayloadSize" "DataSize p = 4086"
    "6 \<le> unat fs" "unat fs \<le> unat fe" "unat fe + 4 * unat sc = PayloadSize" "unat fe \<le> PayloadSize"
    "\<And>s. s < unat sc \<Longrightarrow> 6 \<le> unat (fst (slot_at p s))"
    "\<And>s. s < unat sc \<Longrightarrow> unat (fst (slot_at p s)) + unat (snd (slot_at p s)) \<le> unat fs"
  using assms by (simp_all add: pg_inv_def page_ok_def)

lemma freeSpace_room:
  assumes h: "header p = (sc, fs, fe)" and sp: "int n + 4 \<le> freeSpace p"
  shows "unat fs + n + 4 + 4 * unat sc \<le> unat fe"
proof -
  from sp h have "int n + 4 \<le> uint fe - uint fs - 4 * uint sc"
    by (simp add: freeSpace_def)
  then show ?thesis unfolding uint_nat by linarith
qed

lemma Insert_data:
  assumes inv: "pg_inv p" and h: "header p = (sc, fs, fe)"
    and sp: "int (length rec) + 4 \<le> freeSpace p"
  shows "SlottedPage_Insert p rec =
     (Inr sc,
      setHeader
        (p\<lparr>Data := put_u16 (put_u16 (put_bytes (Data p) (unat fs) rec)
                         (4082 - 4 * unat sc) fs) (4084 - 4 * unat sc) (of_nat (length rec))\<rparr>)
        (sc + 1) (fs + of_nat (length rec)) (fe - 4))"
proof -
  note d = pg_inv_D [OF inv h]
  note room = freeSpace_room [OF h sp]
  have l: "length rec \<le> 65535" using room d(7) by simp
  show ?thesis by (rule Insert_success [OF d(1) h d(4) d(5) d(7) l sp])
qed

lemma Insert_inv:
  assumes inv: "pg_inv p" and h: "header p = (sc, fs, fe)"
    and sp: "int (length rec) + 4 \<le> freeSpace p"
    and p': "p' = snd (SlottedPage_Insert p rec)"
  shows "fst (SlottedPage_Insert p rec) = Inr sc"
    and "header p' = (sc + 1, fs + of_nat (length rec), fe - 4)"
    and "\<And>s. s < unat sc \<Longrightarrow> slot_at p' s = slot_at p s"
    and "slot_at p' (unat sc) = (fs, of_nat (length rec))"
    and "\<And>a n. 6 \<le> a \<Longrightarrow> a + n \<le> unat fs \<Longrightarrow> get_bytes (Data p') a n = get_bytes (Data p) a n"
    and "get_bytes (Data p') (unat fs) (length rec) = rec"
    and "ID p' = ID p" and "DataSize p' = 4086" and "length (Data p') = PayloadSize"
proof -
  note d = pg_inv_D [OF inv h]
  note room = freeSpace_room [OF h sp]
  note eq = Insert_data [OF inv h sp]
  have len: "length (Data p) = PayloadSize" by (rule d)
  show "fst (SlottedPage_Insert p rec) = Inr sc" by (simp add: eq)
  show "header p' = (sc + 1, fs + of_nat (length rec), fe - 4)"
    using room d(7) len d(4) by (simp add: p' eq header_setHeader)
  show "ID p' = ID p" by (simp add: p' eq setHeader_def)
  show "DataSize p' = 4086" by (simp add: p' eq setHeader_def)
  show "length (Data p') = PayloadSize"
    using room d(7) len d(4) by (simp add: p' eq setHeader_def)
  show "get_bytes (Data p') (unat fs) (length rec) = rec"
    using room d(7) len d(4) by (simp add: p' eq setHeader_def get_put_same)
  show "slot_at p' (unat sc) = (fs, of_nat (length rec))"
    using room d(7) len d(4) by (simp add: p' eq setHeader_def slot_at_def)
  show "slot_at p' s = slot_at p s" if "s < unat sc" for s
    using that room d(6) len d(4) by (simp add: p' eq setHeader_def slot_at_def)
  show "get_bytes (Data p') a n = get_bytes (Data p) a n" if "6 \<le> a" "a + n \<le> unat fs" for a n
    using that room d(6) len d(4) by (simp add: p' eq setHeader_def get_put_disj)
qed

lemma header_put_high:
  "length d = PayloadSize \<Longrightarrow> 6 \<le> a \<Longrightarrow> a + 2 \<le> PayloadSize \<Longrightarrow>
   header (p\<lparr>Data := put_u16 d a v\<rparr>) = header (p\<lparr>Data := d\<rparr>)"
  by (simp add: header_def)

lemma Insert_pg_inv:
  assumes inv: "pg_inv p" and h: "header p = (sc, fs, fe)"
    and sp: "int (length rec) + 4 \<le> freeSpace p"
  shows "pg_inv (snd (SlottedPage_Insert p rec))"
proof -
  define p' where "p' = snd (SlottedPage_Insert p rec)"
  note d = pg_inv_D [OF inv h]
  note room = freeSpace_room [OF h sp]
  note i = Insert_inv [OF inv h sp p'_def]
  note wf = word_facts [OF room d(7)]
  have slots: "6 \<le> unat (fst (slot_at p' s)) \<and>
      unat (fst (slot_at p' s)) + unat (snd (slot_at p' s)) \<le> unat fs + length rec"
    if "s < unat sc + 1" for s
  proof (cases "s < unat sc")
    case True
    then show ?thesis using d(8) [OF True] d(9) [OF True] by (simp add: i(3) [OF True])
  next
    case False
    with that have "s = unat sc" by simp
    then show ?thesis using d(4) by (simp add: i(4) wf)
  qed
  have "pg_inv p'"
    unfolding pg_inv_def i(2) using slots i(8) i(9) d room wf
    by (simp add: page_ok_def)
  then show ?thesis by (simp add: p'_def)
qed

lemma Delete_inv:
  assumes inv: "pg_inv p" and h: "header p = (sc, fs, fe)" and s: "s < sc"
  shows "\<exists>p'. SlottedPage_Delete p s = Inr p' \<and> pg_inv p' \<and> header p' = header p \<and>
     ID p' = ID p \<and>
     slot_at p' (unat s) = (fst (slot_at p (unat s)), 0) \<and>
     (\<forall>t < unat sc. t \<noteq> unat s \<longrightarrow> slot_at p' t = slot_at p t) \<and>
     (\<forall>a n. 6 \<le> a \<longrightarrow> a + n \<le> unat fs \<longrightarrow> get_bytes (Data p') a n = get_bytes (Data p) a n)"
proof -
  note d = pg_inv_D [OF inv h]
  from s have su: "unat s < unat sc" by (simp add: word_less_nat_alt)
  from su d(6) d(5) d(4) have sm: "unat s < 1021" and lo: "unat fe \<le> 4082 - 4 * unat s" by simp_all
  obtain off ln where sl: "slot_at p (unat s) = (off, ln)" by (cases "slot_at p (unat s)")
  define p' where
    "p' = p\<lparr>Data := put_u16 (put_u16 (Data p) (4082 - 4 * unat s) off) (4084 - 4 * unat s) 0\<rparr>"
  have del: "SlottedPage_Delete p s = Inr p'"
    by (simp add: SlottedPage_Delete_def getSlot_ok [OF inv h s] sl setSlot_ok [OF sm d(2)] p'_def)
  have len': "length (Data p') = PayloadSize" using d(2) sm by (simp add: p'_def)
  have hd: "header p' = header p"
    using d(2) d(4) d(5) lo sm by (simp add: p'_def header_def)
  have s1: "slot_at p' (unat s) = (off, 0)"
    using d(2) sm by (simp add: p'_def slot_at_def)
  have s2: "slot_at p' t = slot_at p t" if "t < unat sc" "t \<noteq> unat s" for t
  proof -
    from that d(6) d(5) d(4) have "t < 1021" by simp
    then show ?thesis using that d(2) sm
      by (cases "t < unat s") (simp_all add: p'_def slot_at_def)
  qed
  have bts: "get_bytes (Data p') a n = get_bytes (Data p) a n" if "6 \<le> a" "a + n \<le> unat fs" for a n
    using that d(2) d(5) lo sm by (simp add: p'_def)
  have off: "6 \<le> unat off" "unat off + unat ln \<le> unat fs"
    using d(8) [OF su] d(9) [OF su] by (simp_all add: sl)
  have slots: "6 \<le> unat (fst (slot_at p' t)) \<and>
      unat (fst (slot_at p' t)) + unat (snd (slot_at p' t)) \<le> unat fs" if "t < unat sc" for t
  proof (cases "t = unat s")
    case True
    then show ?thesis using off by (simp add: s1)
  next
    case False
    then show ?thesis using d(8) [OF that] d(9) [OF that] by (simp add: s2 [OF that])
  qed
  have "pg_inv p'"
    unfolding pg_inv_def hd h using slots len' d by (simp add: page_ok_def p'_def)
  then show ?thesis using del hd s1 s2 bts by (auto simp: sl p'_def)
qed

lemma header_Checksum [simp]: "header (p\<lparr>Checksum := c\<rparr>) = header p"
  by (simp add: header_def)

lemma slot_at_Checksum [simp]: "slot_at (p\<lparr>Checksum := c\<rparr>) s = slot_at p s"
  by (simp add: slot_at_def)

lemma pg_inv_Checksum [simp]: "pg_inv (p\<lparr>Checksum := c\<rparr>) = pg_inv p"
  by (simp add: pg_inv_def page_ok_def)

lemma getSlot_Checksum [simp]: "getSlot (p\<lparr>Checksum := c\<rparr>) s = getSlot p s"
  by (simp add: getSlot_def Let_def split: prod.splits)

lemma Read_Checksum [simp]: "SlottedPage_Read (p\<lparr>Checksum := c\<rparr>) s = SlottedPage_Read p s"
  by (simp add: SlottedPage_Read_def split: sum.splits prod.splits)

lemma ReadPage_in_range: "ReadPage f j = Inr p \<Longrightarrow> pageOffset j + PageSize \<le> length f"
  by (auto simp: ReadPage_def ReadAt_def split: if_splits)

lemma ReadPage_out_of_range: "length f < pageOffset j + PageSize \<Longrightarrow> ReadPage f j = Inl ErrIO"
  by (simp add: ReadPage_def ReadAt_def)

lemma ReadPage_WritePage_other:
  assumes ok: "page_ok p" and w: "WritePage f p = Inr (f', p')"
    and ne: "j \<noteq> ID p" and r: "pageOffset j + PageSize \<le> length f"
  shows "ReadPage f' j = ReadPage f j"
proof -
  from w have ds: "unat (DataSize p) \<le> PayloadSize"
    by (auto simp: WritePage_def split: if_splits)
  let ?q = "p\<lparr>Checksum := ChecksumIEEE (take (unat (DataSize p)) (Data p))\<rparr>"
  from w WritePage_ok [OF ok ds, of f]
  have f': "f' = WriteAt f (page_buf ?q) (pageOffset (ID p))" by auto
  have lq: "length (Data ?q) = PayloadSize" using ok by (simp add: page_ok_def)
  have lb: "length (page_buf ?q) = PageSize" by (rule length_page_buf [OF lq])
  from ne have "unat j \<noteq> unat (ID p)" by (simp add: word_unat_eq_iff)
  then consider "unat j < unat (ID p)" | "unat (ID p) < unat j" by linarith
  then have "ReadAt f' PageSize (pageOffset j) = ReadAt f PageSize (pageOffset j)"
  proof cases
    case 1
    then have "pageOffset j + PageSize \<le> pageOffset (ID p)" by (simp add: pageOffset_def)
    then show ?thesis unfolding f' using r by (rule ReadAt_WriteAt_before)
  next
    case 2
    then have "pageOffset (ID p) + length (page_buf ?q) \<le> pageOffset j"
      by (simp add: pageOffset_def lb)
    then show ?thesis unfolding f' using r by (rule ReadAt_WriteAt_after)
  qed
  then show ?thesis by (simp add: ReadPage_def)
qed

lemma WritePage_length:
  assumes ok: "page_ok p" and w: "WritePage f p = Inr (f', p')"
  shows "length f' = max (length f) (pageOffset (ID p) + PageSize)"
    and "p' = p\<lparr>Checksum := ChecksumIEEE (take (unat (DataSize p)) (Data p))\<rparr>"
proof -
  from w have ds: "unat (DataSize p) \<le> PayloadSize"
    by (auto simp: WritePage_def split: if_splits)
  let ?q = "p\<lparr>Checksum := ChecksumIEEE (take (unat (DataSize p)) (Data p))\<rparr>"
  from w WritePage_ok [OF ok ds, of f]
  have f': "f' = WriteAt f (page_buf ?q) (pageOffset (ID p))" and p': "p' = ?q" by auto
  have lq: "length (Data ?q) = PayloadSize" using ok by (simp add: page_ok_def)
  show "length f' = max (length f) (pageOffset (ID p) + PageSize)"
    unfolding f' by (simp add: length_WriteAt length_page_buf [OF lq])
  show "p' = ?q" by (rule p')
qed

lemma pg_inv_InitIfFresh: "pg_inv p \<Longrightarrow> InitIfFresh p = p"
  by (auto simp: InitIfFresh_cases pg_inv_def split: prod.splits)

lemma pg_inv_fresh: "pg_inv (InitIfFresh (new_page i))"
proof -
  have h: "header (InitIfFresh (new_page i)) = (0, 6, 4086)" by (rule fresh_header)
  have ok: "page_ok (InitIfFresh (new_page i))"
    by (simp add: InitIfFresh_new_page page_ok_setHeader page_ok_new_page)
  have ds: "DataSize (InitIfFresh (new_page i)) = 4086"
    by (simp add: InitIfFresh_new_page setHeader_def)
  show ?thesis by (simp add: pg_inv_def h ok ds)
qed

lemma ID_fresh: "ID (InitIfFresh (new_page i)) = i"
  by (simp add: InitIfFresh_new_page setHeader_def) (simp add: new_page_def)

lemma freeSpace_fresh: "freeSpace (InitIfFresh (new_page i)) = 4080"
  by (simp add: freeSpace_def fresh_header)

lemma heap_inv_page:
  assumes "heap_inv f" and "unat j < length f div PageSize"
  shows "\<exists>p. ReadPage f j = Inr p \<and> ID p = j \<and> pg_inv p"
  using assms by (auto simp: heap_inv_def dest!: spec [where x = "unat j"])

lemma heap_inv_pageCount:
  "heap_inv f \<Longrightarrow> unat (pageCount f) = length f div PageSize"
  by (simp add: heap_inv_def pageCount_def unat_of_nat)

lemma findPageLoop_inv:
  "heap_inv f \<Longrightarrow> n = pageCount f \<Longrightarrow> unat i \<le> unat n \<Longrightarrow>
     \<exists>j sp. findPageLoop f need n i = Inr (j, sp) \<and> pg_inv sp \<and> ID sp = j \<and>
       ((unat j < length f div PageSize \<and> ReadPage f j = Inr sp \<and> need \<le> freeSpace sp) \<or>
        (j = n \<and> sp = InitIfFresh (new_page n) \<and>
         (\<forall>k p. unat i \<le> unat k \<longrightarrow> k < n \<longrightarrow> ReadPage f k = Inr p \<longrightarrow> freeSpace p < need)))"
proof (induction f need n i rule: findPageLoop.induct)
  case (1 f need n i)
  note cnt = heap_inv_pageCount [OF "1.prems"(1)]
  note nn = "1.prems"(2)
  show ?case
  proof (cases "i < n")
    case False
    then have "unat n \<le> unat i" by (simp add: word_less_nat_alt)
    then show ?thesis
      using False pg_inv_fresh [of n] ID_fresh [of n]
      by (subst findPageLoop.simps) (auto simp: word_less_nat_alt)
  next
    case True
    then have iu: "unat i < length f div PageSize"
      using cnt nn by (simp add: word_less_nat_alt)
    from heap_inv_page [OF "1.prems"(1) iu] obtain p where
      p: "ReadPage f i = Inr p" "ID p = i" "pg_inv p" by blast
    have fresh: "InitIfFresh p = p" by (rule pg_inv_InitIfFresh [OF p(3)])
    show ?thesis
    proof (cases "need \<le> freeSpace p")
      case yes: True
      then show ?thesis
        using True p iu by (subst findPageLoop.simps) (simp add: fresh)
    next
      case no: False
      from True have su: "unat (i + 1) = unat i + 1" "unat i < unat n" by unat_arith+
      then have le: "unat (i + 1) \<le> unat n" by simp
      have no': "\<not> need \<le> freeSpace (InitIfFresh p)" using no by (simp add: fresh)
      from "1.IH" [OF True p(1) refl no' "1.prems"(1) nn le]
      obtain j sp where r: "findPageLoop f need n (i + 1) = Inr (j, sp)" "pg_inv sp" "ID sp = j"
        "(unat j < length f div PageSize \<and> ReadPage f j = Inr sp \<and> need \<le> freeSpace sp) \<or>
         (j = n \<and> sp = InitIfFresh (new_page n) \<and>
          (\<forall>k p. unat (i + 1) \<le> unat k \<longrightarrow> k < n \<longrightarrow> ReadPage f k = Inr p \<longrightarrow> freeSpace p < need))"
        by blast
      have ext: "\<forall>k p. unat i \<le> unat k \<longrightarrow> k < n \<longrightarrow> ReadPage f k = Inr p \<longrightarrow> freeSpace p < need"
        if a: "\<forall>k p. unat (i + 1) \<le> unat k \<longrightarrow> k < n \<longrightarrow> ReadPage f k = Inr p \<longrightarrow> freeSpace p < need"
      proof (intro allI impI)
        fix k q assume k: "unat i \<le> unat k" "k < n" "ReadPage f k = Inr q"
        show "freeSpace q < need"
        proof (cases "unat k = unat i")
          case True
          then have "k = i" by (simp add: word_unat_eq_iff)
          with k p no show ?thesis by simp
        next
          case False
          with k su have "unat (i + 1) \<le> unat k" by simp
          with a k show ?thesis by blast
        qed
      qed
      have step: "findPageLoop f need n i = findPageLoop f need n (i + 1)"
        using True p no by (subst findPageLoop.simps) (simp add: fresh)
      from r(4) show ?thesis
      proof
        assume "unat j < length f div PageSize \<and> ReadPage f j = Inr sp \<and> need \<le> freeSpace sp"
        then show ?thesis unfolding step using r(1-3) by blast
      next
        assume a: "j = n \<and> sp = InitIfFresh (new_page n) \<and>
          (\<forall>k p. unat (i + 1) \<le> unat k \<longrightarrow> k < n \<longrightarrow> ReadPage f k = Inr p \<longrightarrow> freeSpace p < need)"
        then have "\<forall>k p. unat i \<le> unat k \<longrightarrow> k < n \<longrightarrow> ReadPage f k = Inr p \<longrightarrow> freeSpace p < need"
          using ext by blast
        then show ?thesis unfolding step using r(1-3) a by blast
      qed
    qed
  qed
qed

lemma WritePage_heap:
  assumes inv: "heap_inv f" and pi: "pg_inv p"
    and idp: "unat (ID p) \<le> length f div PageSize" and bound: "unat (ID p) + 1 < 2 ^ 32"
  shows "\<exists>f' c. WritePage f p = Inr (f', p\<lparr>Checksum := c\<rparr>) \<and> heap_inv f' \<and>
     ReadPage f' (ID p) = Inr (p\<lparr>Checksum := c\<rparr>) \<and>
     length f' div PageSize = max (length f div PageSize) (unat (ID p) + 1) \<and>
     (\<forall>j. j \<noteq> ID p \<longrightarrow> unat j < length f div PageSize \<longrightarrow> ReadPage f' j = ReadPage f j)"
proof -
  from pi have ok: "page_ok p" and ds: "DataSize p = 4086" by (simp_all add: pg_inv_def)
  from ds have dsu: "unat (DataSize p) \<le> PayloadSize" by simp
  define c where "c = ChecksumIEEE (take (unat (DataSize p)) (Data p))"
  define f' where "f' = WriteAt f (page_buf (p\<lparr>Checksum := c\<rparr>)) (pageOffset (ID p))"
  have w: "WritePage f p = Inr (f', p\<lparr>Checksum := c\<rparr>)"
    unfolding f'_def c_def by (rule WritePage_ok [OF ok dsu])
  have rd: "ReadPage f' (ID p) = Inr (p\<lparr>Checksum := c\<rparr>)"
    by (rule ReadPage_WritePage_same [OF ok w])
  from inv have al: "length f mod PageSize = 0" and nb: "length f div PageSize < 2 ^ 32"
    by (simp_all add: heap_inv_def)
  define n where "n = length f div PageSize"
  have lf: "length f = n * PageSize" using al by (auto simp: n_def)
  have len: "length f' = max (length f) (pageOffset (ID p) + PageSize)"
    by (rule WritePage_length [OF ok w])
  have len': "length f' = max n (unat (ID p) + 1) * PageSize"
    unfolding len lf pageOffset_def by (simp add: max_def)
  then have dv: "length f' div PageSize = max n (unat (ID p) + 1)"
    and md: "length f' mod PageSize = 0" by simp_all
  have other: "ReadPage f' j = ReadPage f j" if "j \<noteq> ID p" "unat j < n" for j
  proof -
    from that(2) have "pageOffset j + PageSize \<le> length f"
      unfolding lf pageOffset_def by simp
    then show ?thesis by (rule ReadPage_WritePage_other [OF ok w that(1)])
  qed
  have pages: "\<exists>q. ReadPage f' (of_nat i) = Inr q \<and> ID q = of_nat i \<and> pg_inv q"
    if i: "i < max n (unat (ID p) + 1)" for i
  proof (cases "(of_nat i :: u32) = ID p")
    case True
    then show ?thesis using rd pi by simp
  next
    case False
    have ib: "i < 2 ^ 32" using i nb bound by (simp add: n_def)
    then have ui: "unat (of_nat i :: u32) = i" by (simp add: unat_of_nat)
    from False have "i \<noteq> unat (ID p)" by auto
    with i idp have "i < n" by (simp add: n_def max_def split: if_splits)
    then show ?thesis
      using other [OF False] ui inv by (auto simp: heap_inv_def n_def)
  qed
  have "heap_inv f'"
    unfolding heap_inv_def dv using md pages nb bound by (simp add: n_def)
  then show ?thesis using w rd dv other by (auto simp: n_def)
qed

lemma Read_Insert_old:
  assumes inv: "pg_inv p" and h: "header p = (sc, fs, fe)"
    and sp: "int (length rec) + 4 \<le> freeSpace p" and s: "s < sc"
  shows "SlottedPage_Read (snd (SlottedPage_Insert p rec)) s = SlottedPage_Read p s"
proof -
  define p' where "p' = snd (SlottedPage_Insert p rec)"
  note d = pg_inv_D [OF inv h]
  note room = freeSpace_room [OF h sp]
  note i = Insert_inv [OF inv h sp p'_def]
  note wf = word_facts [OF room d(7)]
  have inv': "pg_inv p'" unfolding p'_def by (rule Insert_pg_inv [OF inv h sp])
  from s have su: "unat s < unat sc" by (simp add: word_less_nat_alt)
  then have s': "s < sc + 1" using wf(2) by (simp add: word_less_nat_alt)
  have sl: "slot_at p' (unat s) = slot_at p (unat s)" by (rule i(3) [OF su])
  have "get_bytes (Data p') (unat (fst (slot_at p (unat s)))) (unat (snd (slot_at p (unat s))))
      = get_bytes (Data p) (unat (fst (slot_at p (unat s)))) (unat (snd (slot_at p (unat s))))"
    by (rule i(5) [OF d(8) [OF su] d(9) [OF su]])
  then show ?thesis
    unfolding p'_def [symmetric]
    by (simp add: Read_ok [OF inv' i(2) s'] Read_ok [OF inv h s] sl)
qed

lemma Read_Insert_new:
  assumes inv: "pg_inv p" and h: "header p = (sc, fs, fe)"
    and sp: "int (length rec) + 4 \<le> freeSpace p"
  shows "SlottedPage_Read (snd (SlottedPage_Insert p rec)) sc
     = (if rec = [] then Inl ErrSlotDeleted else Inr rec)"
proof -
  define p' where "p' = snd (SlottedPage_Insert p rec)"
  note d = pg_inv_D [OF inv h]
  note room = freeSpace_room [OF h sp]
  note i = Insert_inv [OF inv h sp p'_def]
  note wf = word_facts [OF room d(7)]
  have inv': "pg_inv p'" unfolding p'_def by (rule Insert_pg_inv [OF inv h sp])
  have s': "sc < sc + 1" using wf(2) by (simp add: word_less_nat_alt)
  have z: "(of_nat (length rec) :: u16) = 0 \<longleftrightarrow> rec = []"
    using wf(1) by (metis length_0_conv unat_0 word_unat_eq_iff)
  show ?thesis
    unfolding p'_def [symmetric]
    by (simp add: Read_ok [OF inv' i(2) s'] i(4) z wf(1) i(6))
qed

lemma Read_live_slot:
  assumes h: "header p = (sc, fs, fe)"
    and r: "SlottedPage_Read p s = Inr b \<or> SlottedPage_Read p s = Inl ErrSlotDeleted"
  shows "s < sc"
proof (rule ccontr)
  assume "\<not> s < sc"
  then have "sc \<le> s" by simp
  from getSlot_bad [OF h this] r show False by (simp add: SlottedPage_Read_def)
qed

lemma heap_inv_aligned:
  assumes "heap_inv f" "ReadPage f j = Inr q"
  shows "unat j < length f div PageSize"
proof -
  from assms(2) have "pageOffset j + PageSize \<le> length f" by (rule ReadPage_in_range)
  then have "(unat j + 1) * PageSize \<le> length f" by (simp add: pageOffset_def)
  then have "unat j + 1 \<le> length f div PageSize"
    by (metis div_le_mono div_mult_self_is_m zero_less_numeral)
  then show ?thesis by simp
qed

text \<open>What a successful heap insert looks like on a heap that satisfies the invariant.\<close>

lemma HeapFile_Insert_shape:
  assumes inv: "heap_inv f" and ins: "HeapFile_Insert f rec = (Inr rid, f')"
  shows "\<exists>j sp sc fs fe c.
     findPageWithSpace f (int (length rec) + 4) = Inr (j, sp) \<and> pg_inv sp \<and> ID sp = j \<and>
     unat j \<le> length f div PageSize \<and>
     (unat j < length f div PageSize \<longrightarrow> ReadPage f j = Inr sp) \<and>
     header sp = (sc, fs, fe) \<and> int (length rec) + 4 \<le> freeSpace sp \<and>
     rid = \<lparr>PageID = j, SlotID = sc\<rparr> \<and>
     WritePage f (snd (SlottedPage_Insert sp rec))
       = Inr (f', (snd (SlottedPage_Insert sp rec))\<lparr>Checksum := c\<rparr>)"
proof -
  have le: "unat (0::u32) \<le> unat (pageCount f)" by simp
  from findPageLoop_inv [OF inv refl le, of "int (length rec) + 4"]
  obtain j sp where fp: "findPageWithSpace f (int (length rec) + 4) = Inr (j, sp)"
    and sp: "pg_inv sp" "ID sp = j"
    and cases: "(unat j < length f div PageSize \<and> ReadPage f j = Inr sp \<and>
        int (length rec) + 4 \<le> freeSpace sp) \<or>
       (j = pageCount f \<and> sp = InitIfFresh (new_page (pageCount f)) \<and>
        (\<forall>k p. unat (0::u32) \<le> unat k \<longrightarrow> k < pageCount f \<longrightarrow> ReadPage f k = Inr p \<longrightarrow>
           freeSpace p < int (length rec) + 4))"
    unfolding findPageWithSpace_def by blast
  obtain sc fs fe where h: "header sp = (sc, fs, fe)" by (cases "header sp")
  have jn: "unat j \<le> length f div PageSize"
    using cases heap_inv_pageCount [OF inv] by auto
  have rd: "unat j < length f div PageSize \<longrightarrow> ReadPage f j = Inr sp"
    using cases heap_inv_pageCount [OF inv] by auto
  obtain res sp' where si: "SlottedPage_Insert sp rec = (res, sp')"
    by (cases "SlottedPage_Insert sp rec")
  from ins fp si obtain slot where res: "res = Inr slot"
    by (cases res) (auto simp: HeapFile_Insert_def)
  have v: "sp_valid sp" by (rule pg_inv_valid [OF sp(1)])
  from Insert_fst [OF v, of rec] si res h
  have room: "int (length rec) + 4 \<le> freeSpace sp" and slot: "slot = sc"
    by (auto split: if_splits)
  from ins fp si res obtain q where w: "WritePage f sp' = Inr (f', q)"
    and rid: "rid = \<lparr>PageID = j, SlotID = slot\<rparr>"
    by (auto simp: HeapFile_Insert_def split: sum.splits)
  have inv': "pg_inv sp'" using Insert_pg_inv [OF sp(1) h room] si by simp
  then have ok': "page_ok sp'" by (simp add: pg_inv_def)
  from WritePage_length(2) [OF ok' w] obtain c where q: "q = sp'\<lparr>Checksum := c\<rparr>" by blast
  show ?thesis
    using fp sp jn rd h room rid slot w q si by auto
qed

lemma ReadPage_errors:
  "ReadPage f j = Inl e \<Longrightarrow> e = ErrIO \<or> e = Panic \<or> e = ErrChecksumMismatch"
  by (auto simp: ReadPage_def ReadAt_def ComputeChecksum_def Let_def split: if_splits sum.splits)

lemma HeapFile_Get_live:
  assumes "HeapFile_Get f r = Inr b \<or> HeapFile_Get f r = Inl ErrSlotDeleted"
  shows "\<exists>q. ReadPage f (PageID r) = Inr q \<and>
    (SlottedPage_Read q (SlotID r) = Inr b \<or> SlottedPage_Read q (SlotID r) = Inl ErrSlotDeleted)"
  using assms by (auto simp: HeapFile_Get_def split: sum.splits dest: ReadPage_errors)

lemma HeapFile_Insert_inv:
  assumes inv: "heap_inv f" and ins: "HeapFile_Insert f rec = (Inr rid, f')"
    and bound: "length f' div PageSize < 2 ^ 32"
  shows "heap_inv f'"
    and "HeapFile_Get f' rid = (if rec = [] then Inl ErrSlotDeleted else Inr rec)"
    and "\<And>r b. HeapFile_Get f r = Inr b \<Longrightarrow> HeapFile_Get f' r = Inr b"
    and "\<And>r. HeapFile_Get f r = Inl ErrSlotDeleted \<Longrightarrow> HeapFile_Get f' r = Inl ErrSlotDeleted"
    and "\<And>b. HeapFile_Get f rid \<noteq> Inr b" and "HeapFile_Get f rid \<noteq> Inl ErrSlotDeleted"
proof -
  from HeapFile_Insert_shape [OF inv ins]
  obtain j sp sc fs fe c where
    sp: "pg_inv sp" "ID sp = j" and jn: "unat j \<le> length f div PageSize"
    and rd: "unat j < length f div PageSize \<longrightarrow> ReadPage f j = Inr sp"
    and h: "header sp = (sc, fs, fe)" and room: "int (length rec) + 4 \<le> freeSpace sp"
    and rid: "rid = \<lparr>PageID = j, SlotID = sc\<rparr>"
    and w: "WritePage f (snd (SlottedPage_Insert sp rec))
       = Inr (f', (snd (SlottedPage_Insert sp rec))\<lparr>Checksum := c\<rparr>)"
    by blast
  define p' where "p' = snd (SlottedPage_Insert sp rec)"
  note i = Insert_inv [OF sp(1) h room p'_def]
  have inv': "pg_inv p'" unfolding p'_def by (rule Insert_pg_inv [OF sp(1) h room])
  then have ok': "page_ok p'" by (simp add: pg_inv_def)
  have idp: "ID p' = j" using i(7) sp(2) by simp
  have w': "WritePage f p' = Inr (f', p'\<lparr>Checksum := c\<rparr>)" using w by (simp add: p'_def)
  have "length f' = max (length f) (pageOffset (ID p') + PageSize)"
    by (rule WritePage_length [OF ok' w'])
  then have "(unat j + 1) * PageSize \<le> length f'" by (simp add: pageOffset_def idp)
  then have "unat j + 1 \<le> length f' div PageSize"
    by (metis div_le_mono div_mult_self_is_m zero_less_numeral)
  with bound have jb: "unat (ID p') + 1 < 2 ^ 32" by (simp add: idp)
  from WritePage_heap [OF inv inv' _ jb] jn w'
  have hi: "heap_inv f'" and rd': "ReadPage f' j = Inr (p'\<lparr>Checksum := c\<rparr>)"
    and other: "\<And>k. k \<noteq> j \<Longrightarrow> unat k < length f div PageSize \<Longrightarrow> ReadPage f' k = ReadPage f k"
    by (auto simp: idp)
  show "heap_inv f'" by (rule hi)
  show "HeapFile_Get f' rid = (if rec = [] then Inl ErrSlotDeleted else Inr rec)"
    using Read_Insert_new [OF sp(1) h room]
    by (simp add: HeapFile_Get_def rid rd' p'_def)
  have keep: "HeapFile_Get f' r = HeapFile_Get f r"
    if g: "HeapFile_Get f r = Inr b \<or> HeapFile_Get f r = Inl ErrSlotDeleted" for r b
  proof -
    from HeapFile_Get_live [OF g] obtain q where q: "ReadPage f (PageID r) = Inr q"
      and rq: "SlottedPage_Read q (SlotID r) = Inr b \<or> SlottedPage_Read q (SlotID r) = Inl ErrSlotDeleted"
      by blast
    note inr = heap_inv_aligned [OF inv q]
    show ?thesis
    proof (cases "PageID r = j")
      case False
      then show ?thesis using other [OF False inr] by (simp add: HeapFile_Get_def)
    next
      case True
      with inr rd q have qs: "q = sp" by simp
      from Read_live_slot [OF h rq [unfolded qs]] have s: "SlotID r < sc" .
      show ?thesis
        using Read_Insert_old [OF sp(1) h room s] q
        by (simp add: HeapFile_Get_def True rd' p'_def qs)
    qed
  qed
  show "HeapFile_Get f' r = Inr b" if "HeapFile_Get f r = Inr b" for r b
    using keep [of r b] that by simp
  show "HeapFile_Get f' r = Inl ErrSlotDeleted" if "HeapFile_Get f r = Inl ErrSlotDeleted" for r
    using keep [of r undefined] that by simp
  have fresh: "\<not> (HeapFile_Get f rid = Inr b \<or> HeapFile_Get f rid = Inl ErrSlotDeleted)" for b
  proof
    assume g: "HeapFile_Get f rid = Inr b \<or> HeapFile_Get f rid = Inl ErrSlotDeleted"
    from HeapFile_Get_live [OF g] obtain q where q: "ReadPage f j = Inr q"
      and rq: "SlottedPage_Read q sc = Inr b \<or> SlottedPage_Read q sc = Inl ErrSlotDeleted"
      by (auto simp: rid)
    from heap_inv_aligned [OF inv q] rd q have qs: "q = sp" by simp
    from Read_live_slot [OF h rq [unfolded qs]] show False by simp
  qed
  show "HeapFile_Get f rid \<noteq> Inr b" for b using fresh [of b] by blast
  show "HeapFile_Get f rid \<noteq> Inl ErrSlotDeleted" using fresh [of undefined] by blast
qed

lemma Read_Delete:
  assumes inv: "pg_inv p" and h: "header p = (sc, fs, fe)" and s: "s < sc"
    and d: "SlottedPage_Delete p s = Inr p'"
  shows "pg_inv p'" and "ID p' = ID p"
    and "SlottedPage_Read p' s = Inl ErrSlotDeleted"
    and "\<And>t. t < sc \<Longrightarrow> t \<noteq> s \<Longrightarrow> SlottedPage_Read p' t = SlottedPage_Read p t"
    and "\<And>t. t < sc \<Longrightarrow> SlottedPage_Read p t = Inl ErrSlotDeleted \<Longrightarrow>
           SlottedPage_Read p' t = Inl ErrSlotDeleted"
proof -
  from Delete_inv [OF inv h s] d
  have inv': "pg_inv p'" and h': "header p' = (sc, fs, fe)" and id: "ID p' = ID p"
    and s1: "slot_at p' (unat s) = (fst (slot_at p (unat s)), 0)"
    and s2: "\<And>t. t < unat sc \<Longrightarrow> t \<noteq> unat s \<Longrightarrow> slot_at p' t = slot_at p t"
    and bts: "\<And>a n. 6 \<le> a \<Longrightarrow> a + n \<le> unat fs \<Longrightarrow> get_bytes (Data p') a n = get_bytes (Data p) a n"
    by (auto simp: h)
  note dd = pg_inv_D [OF inv h]
  show "pg_inv p'" by (rule inv')
  show "ID p' = ID p" by (rule id)
  show del: "SlottedPage_Read p' s = Inl ErrSlotDeleted"
    by (simp add: Read_ok [OF inv' h' s] s1)
  show other: "SlottedPage_Read p' t = SlottedPage_Read p t" if t: "t < sc" "t \<noteq> s" for t
  proof -
    from t have tu: "unat t < unat sc" "unat t \<noteq> unat s"
      by (simp_all add: word_less_nat_alt word_unat_eq_iff)
    have "get_bytes (Data p') (unat (fst (slot_at p (unat t)))) (unat (snd (slot_at p (unat t))))
      = get_bytes (Data p) (unat (fst (slot_at p (unat t)))) (unat (snd (slot_at p (unat t))))"
      by (rule bts [OF dd(8) [OF tu(1)] dd(9) [OF tu(1)]])
    then show ?thesis
      by (simp add: Read_ok [OF inv' h' t(1)] Read_ok [OF inv h t(1)] s2 [OF tu])
  qed
  show "SlottedPage_Read p' t = Inl ErrSlotDeleted"
    if "t < sc" "SlottedPage_Read p t = Inl ErrSlotDeleted" for t
    using that del other by (cases "t = s") simp_all
qed

lemma HeapFile_Delete_inv:
  assumes inv: "heap_inv f" and del: "HeapFile_Delete f r = (None, f')"
  shows "heap_inv f'" and "length f' = length f"
    and "HeapFile_Get f' r = Inl ErrSlotDeleted"
    and "\<And>r' b. HeapFile_Get f r' = Inr b \<Longrightarrow> r' \<noteq> r \<Longrightarrow> HeapFile_Get f' r' = Inr b"
    and "\<And>r'. HeapFile_Get f r' = Inl ErrSlotDeleted \<Longrightarrow>
           HeapFile_Get f' r' = Inl ErrSlotDeleted"
proof -
  from del obtain p p' q where rp: "ReadPage f (PageID r) = Inr p"
    and dp: "SlottedPage_Delete p (SlotID r) = Inr p'" and w: "WritePage f p' = Inr (f', q)"
    by (auto simp: HeapFile_Delete_def split: sum.splits)
  note jn = heap_inv_aligned [OF inv rp]
  from heap_inv_page [OF inv jn] rp have pi: "pg_inv p" and idp: "ID p = PageID r" by auto
  obtain sc fs fe where h: "header p = (sc, fs, fe)" by (cases "header p")
  have s: "SlotID r < sc"
  proof (rule ccontr)
    assume "\<not> SlotID r < sc"
    then have "sc \<le> SlotID r" by simp
    from getSlot_bad [OF h this] dp show False by (simp add: SlottedPage_Delete_def)
  qed
  note rdl = Read_Delete [OF pi h s dp]
  have idp': "ID p' = PageID r" using rdl(2) idp by simp
  have ok': "page_ok p'" using rdl(1) by (simp add: pg_inv_def)
  from WritePage_length(2) [OF ok' w] obtain c where q: "q = p'\<lparr>Checksum := c\<rparr>" by blast
  have jb: "unat (ID p') + 1 < 2 ^ 32" using jn inv by (simp add: heap_inv_def idp')
  from WritePage_heap [OF inv rdl(1) _ jb] jn w
  have hi: "heap_inv f'" and rd': "ReadPage f' (PageID r) = Inr q"
    and dv: "length f' div PageSize = length f div PageSize"
    and other: "\<And>k. k \<noteq> PageID r \<Longrightarrow> unat k < length f div PageSize \<Longrightarrow>
        ReadPage f' k = ReadPage f k"
    by (auto simp: idp' q max_def)
  show "heap_inv f'" by (rule hi)
  show "length f' = length f"
    using dv hi inv by (metis heap_inv_def mult_div_mod_eq)
  show "HeapFile_Get f' r = Inl ErrSlotDeleted"
    using rdl(3) by (simp add: HeapFile_Get_def rd' q)
  have keep: "HeapFile_Get f' r' = (if r' = r then Inl ErrSlotDeleted else HeapFile_Get f r')
      \<and> (HeapFile_Get f r' = Inl ErrSlotDeleted \<longrightarrow> HeapFile_Get f' r' = Inl ErrSlotDeleted)"
    if g: "HeapFile_Get f r' = Inr b \<or> HeapFile_Get f r' = Inl ErrSlotDeleted" for r' b
  proof -
    from HeapFile_Get_live [OF g] obtain q' where q': "ReadPage f (PageID r') = Inr q'"
      and rq: "SlottedPage_Read q' (SlotID r') = Inr b \<or>
               SlottedPage_Read q' (SlotID r') = Inl ErrSlotDeleted"
      by blast
    note inr = heap_inv_aligned [OF inv q']
    show ?thesis
    proof (cases "PageID r' = PageID r")
      case False
      then have "r' \<noteq> r" by auto
      then show ?thesis using other [OF False inr] by (simp add: HeapFile_Get_def)
    next
      case True
      with q' rp have qs: "q' = p" by simp
      from Read_live_slot [OF h rq [unfolded qs]] have t: "SlotID r' < sc" .
      show ?thesis
      proof (cases "SlotID r' = SlotID r")
        case same: True
        with True have "r' = r" by simp
        then show ?thesis using rdl(3) by (simp add: HeapFile_Get_def rd' q)
      next
        case diff: False
        then have "r' \<noteq> r" by auto
        then show ?thesis
          using rdl(4) [OF t diff] rp by (simp add: HeapFile_Get_def True rd' q)
      qed
    qed
  qed
  show "HeapFile_Get f' r' = Inr b" if "HeapFile_Get f r' = Inr b" "r' \<noteq> r" for r' b
    using keep [of r' b] that by simp
  show "HeapFile_Get f' r' = Inl ErrSlotDeleted" if "HeapFile_Get f r' = Inl ErrSlotDeleted" for r'
    using keep [of r' undefined] that by simp
qed

lemma scanSlots_log:
  "ReadPage f i = Inr p \<Longrightarrow> scanSlots p i sc s visit log = (e, go, log') \<Longrightarrow>
   \<forall>(r, b) \<in> set log. HeapFile_Get f r = Inr b \<Longrightarrow>
   \<forall>(r, b) \<in> set log'. HeapFile_Get f r = Inr b"
proof (induction p i sc s visit log rule: scanSlots.induct)
  case (1 p i sc s visit log)
  show ?case
  proof (cases "s < sc")
    case False
    with "1.prems" show ?thesis by (subst (asm) scanSlots.simps) simp
  next
    case True
    show ?thesis
    proof (cases "SlottedPage_Read p s")
      case (Inl err)
      show ?thesis
      proof (cases "err = ErrSlotDeleted")
        case True
        from "1.prems"(2) have "scanSlots p i sc (s + 1) visit log = (e, go, log')"
          using \<open>s < sc\<close> Inl True by (subst (asm) scanSlots.simps) simp
        from "1.IH"(1) [OF \<open>s < sc\<close> Inl True "1.prems"(1) this "1.prems"(3)]
        show ?thesis .
      next
        case False
        with "1.prems" \<open>s < sc\<close> Inl show ?thesis by (subst (asm) scanSlots.simps) simp
      qed
    next
      case (Inr b)
      define r where "r = \<lparr>PageID = i, SlotID = s\<rparr>"
      have g: "HeapFile_Get f r = Inr b" using "1.prems"(1) Inr by (simp add: HeapFile_Get_def r_def)
      have ext: "\<forall>(r, b) \<in> set (log @ [(r, b)]). HeapFile_Get f r = Inr b"
        using "1.prems"(3) g by auto
      show ?thesis
      proof (cases "visit log r b")
        case False
        from "1.prems"(2) have "log' = log @ [(r, b)]"
          using \<open>s < sc\<close> Inr False by (subst (asm) scanSlots.simps) (simp add: r_def)
        with ext show ?thesis by simp
      next
        case True
        from "1.prems"(2) have "scanSlots p i sc (s + 1) visit (log @ [(r, b)]) = (e, go, log')"
          using \<open>s < sc\<close> Inr True by (subst (asm) scanSlots.simps) (simp add: r_def)
        from "1.IH"(2) [OF \<open>s < sc\<close> Inr r_def _ "1.prems"(1) this ext] True
        show ?thesis by simp
      qed
    qed
  qed
qed

lemma scanPages_log:
  "scanPages f n i visit log = (e, log') \<Longrightarrow>
   \<forall>(r, b) \<in> set log. HeapFile_Get f r = Inr b \<Longrightarrow>
   \<forall>(r, b) \<in> set log'. HeapFile_Get f r = Inr b"
proof (induction f n i visit log rule: scanPages.induct)
  case (1 f n i visit log)
  show ?case
  proof (cases "i < n")
    case False
    with "1.prems" show ?thesis by (subst (asm) scanPages.simps) simp
  next
    case True
    show ?thesis
    proof (cases "ReadPage f i")
      case (Inl err)
      with "1.prems" True show ?thesis by (subst (asm) scanPages.simps) simp
    next
      case (Inr p)
      obtain e1 go l1 where ss: "scanSlots p i (fst (header p)) 0 visit log = (e1, go, l1)"
        by (cases "scanSlots p i (fst (header p)) 0 visit log")
      note l1 = scanSlots_log [OF Inr ss "1.prems"(2)]
      show ?thesis
      proof (cases "e1 = None \<and> go")
        case False
        from "1.prems"(1) have "log' = l1"
          using True Inr ss False by (subst (asm) scanPages.simps) (auto split: option.splits)
        with l1 show ?thesis by simp
      next
        case go: True
        from "1.prems"(1) have "scanPages f n (i + 1) visit l1 = (e, log')"
          using True Inr ss go by (subst (asm) scanPages.simps) simp
        from "1.IH" [OF True Inr _ _ _ _ this l1] ss go show ?thesis by simp
      qed
    qed
  qed
qed

lemma HeapFile_Scan_visits:
  "(r, b) \<in> set (snd (HeapFile_Scan f visit)) \<Longrightarrow> HeapFile_Get f r = Inr b"
  using scanPages_log [of f "pageCount f" 0 visit "[]" "fst (HeapFile_Scan f visit)"
      "snd (HeapFile_Scan f visit)"]
  by (auto simp: HeapFile_Scan_def)

lemma heap_inv_empty: "heap_inv []"
  by (simp add: heap_inv_def)

lemma WritePage_mono: "WritePage f p = Inr (f', p') \<Longrightarrow> length f \<le> length f'"
  by (auto simp: WritePage_def Let_def length_WriteAt split: if_splits sum.splits)

lemma HeapFile_Insert_mono: "HeapFile_Insert f rec = (res, f') \<Longrightarrow> length f \<le> length f'"
  by (auto simp: HeapFile_Insert_def Let_def split: sum.splits prod.splits dest: WritePage_mono)

lemma HeapFile_Delete_mono: "HeapFile_Delete f r = (res, f') \<Longrightarrow> length f \<le> length f'"
  by (auto simp: HeapFile_Delete_def split: sum.splits prod.splits dest: WritePage_mono)

lemma heap_run_mono: "heap_run f ops = Some f' \<Longrightarrow> length f \<le> length f'"
proof (induction f ops rule: heap_run.induct)
  case (1 f)
  then show ?case by simp
next
  case (2 f rec ops)
  then show ?case
    by (fastforce split: prod.splits sum.splits dest!: HeapFile_Insert_mono)
next
  case (3 f r ops)
  then show ?case
    by (fastforce split: prod.splits option.splits dest!: HeapFile_Delete_mono)
qed

lemma heap_inserts_mono: "heap_inserts f recs = Some (rids, f') \<Longrightarrow> length f \<le> length f'"
proof (induction recs arbitrary: f rids)
  case Nil
  then show ?case by simp
next
  case (Cons rec recs)
  then show ?case
    by (fastforce split: prod.splits sum.splits option.splits dest!: HeapFile_Insert_mono)
qed

lemma div_bound_mono:
  "length f \<le> length f' \<Longrightarrow> length f' div PageSize < 2 ^ 32 \<Longrightarrow> length (f::osfile) div PageSize < 2 ^ 32"
  by (meson div_le_mono le_less_trans)

text \<open>Invariant and tombstones along a run of successful operations.\<close>

lemma heap_run_inv:
  "heap_inv f \<Longrightarrow> heap_run f ops = Some f' \<Longrightarrow> length f' div PageSize < 2 ^ 32 \<Longrightarrow>
   heap_inv f' \<and>
   (\<forall>r. HeapFile_Get f r = Inl ErrSlotDeleted \<longrightarrow> HeapFile_Get f' r = Inl ErrSlotDeleted)"
proof (induction f ops rule: heap_run.induct)
  case (1 f)
  then show ?case by simp
next
  case (2 f rec ops)
  from "2.prems"(2) obtain rid f1 where i: "HeapFile_Insert f rec = (Inr rid, f1)"
    and r: "heap_run f1 ops = Some f'"
    by (auto split: prod.splits sum.splits)
  have b1: "length f1 div PageSize < 2 ^ 32"
    by (rule div_bound_mono [OF heap_run_mono [OF r] "2.prems"(3)])
  note ii = HeapFile_Insert_inv [OF "2.prems"(1) i b1]
  from "2.IH" [OF i [symmetric] refl ii(1) r "2.prems"(3)] ii(4)
  show ?case by blast
next
  case (3 f d ops)
  from "3.prems"(2) obtain f1 where i: "HeapFile_Delete f d = (None, f1)"
    and r: "heap_run f1 ops = Some f'"
    by (auto split: prod.splits option.splits)
  note ii = HeapFile_Delete_inv [OF "3.prems"(1) i]
  from "3.IH" [OF i [symmetric] refl ii(1) r "3.prems"(3)] ii(5)
  show ?case by blast
qed

lemma heap_inserts_inv:
  "heap_inv f \<Longrightarrow> heap_inserts f recs = Some (rids, f') \<Longrightarrow>
   length f' div PageSize < 2 ^ 32 \<Longrightarrow>
   heap_inv f' \<and> length rids = length recs \<and>
   (\<forall>r b. HeapFile_Get f r = Inr b \<longrightarrow> HeapFile_Get f' r = Inr b) \<and>
   (\<forall>i < length recs. recs ! i \<noteq> [] \<longrightarrow> HeapFile_Get f' (rids ! i) = Inr (recs ! i))"
proof (induction recs arbitrary: f rids)
  case Nil
  then show ?case by simp
next
  case (Cons rec recs)
  from Cons.prems(2) obtain rid f1 rids' where i: "HeapFile_Insert f rec = (Inr rid, f1)"
    and r: "heap_inserts f1 recs = Some (rids', f')" and rids: "rids = rid # rids'"
    by (auto split: prod.splits sum.splits option.splits)
  have b1: "length f1 div PageSize < 2 ^ 32"
    by (rule div_bound_mono [OF heap_inserts_mono [OF r] Cons.prems(3)])
  note ii = HeapFile_Insert_inv [OF Cons.prems(1) i b1]
  note ih = Cons.IH [OF ii(1) r Cons.prems(3)]
  have keep: "\<forall>r b. HeapFile_Get f r = Inr b \<longrightarrow> HeapFile_Get f' r = Inr b"
    using ii(3) ih by blast
  have all: "recs' ! k \<noteq> [] \<longrightarrow> HeapFile_Get f' (rids ! k) = Inr (recs' ! k)"
    if "recs' = rec # recs" "k < length recs'" for k recs'
  proof (cases k)
    case 0
    then show ?thesis using ii(2) ih that by (simp add: rids)
  next
    case (Suc m)
    then show ?thesis using ih that by (simp add: rids)
  qed
  show ?case using ih keep all by (simp add: rids)
qed

lemma HeapFile_Insert_total:
  assumes inv: "heap_inv f" and l: "length rec \<le> 4076"
    and bound: "length f div PageSize + 1 < 2 ^ 32"
  shows "\<exists>rid f'. HeapFile_Insert f rec = (Inr rid, f') \<and>
     length f' div PageSize \<le> length f div PageSize + 1 \<and>
     ((\<forall>k p. k < pageCount f \<longrightarrow> ReadPage f k = Inr p \<longrightarrow>
          freeSpace (InitIfFresh p) < int (length rec) + 4) \<longrightarrow>
      rid = \<lparr>PageID = pageCount f, SlotID = 0\<rparr> \<and>
      length f' div PageSize = length f div PageSize + 1)"
proof -
  let ?need = "int (length rec) + 4"
  have le: "unat (0::u32) \<le> unat (pageCount f)" by simp
  note cnt = heap_inv_pageCount [OF inv]
  from findPageLoop_inv [OF inv refl le, of ?need]
  obtain j sp where fp: "findPageWithSpace f ?need = Inr (j, sp)"
    and sp: "pg_inv sp" "ID sp = j"
    and cases: "(unat j < length f div PageSize \<and> ReadPage f j = Inr sp \<and> ?need \<le> freeSpace sp) \<or>
       (j = pageCount f \<and> sp = InitIfFresh (new_page (pageCount f)))"
    unfolding findPageWithSpace_def by blast
  have room: "?need \<le> freeSpace sp" using cases l by (auto simp: freeSpace_fresh)
  have jn: "unat j \<le> length f div PageSize" using cases cnt by auto
  obtain sc fs fe where h: "header sp = (sc, fs, fe)" by (cases "header sp")
  define p' where "p' = snd (SlottedPage_Insert sp rec)"
  note i = Insert_inv [OF sp(1) h room p'_def]
  have si: "SlottedPage_Insert sp rec = (Inr sc, p')" using i(1) by (simp add: p'_def prod_eq_iff)
  have inv': "pg_inv p'" unfolding p'_def by (rule Insert_pg_inv [OF sp(1) h room])
  have idp: "ID p' = j" using i(7) sp(2) by simp
  have jb: "unat (ID p') + 1 < 2 ^ 32" using jn bound by (simp add: idp)
  from WritePage_heap [OF inv inv' _ jb] jn
  obtain f' c where w: "WritePage f p' = Inr (f', p'\<lparr>Checksum := c\<rparr>)"
    and dv: "length f' div PageSize = max (length f div PageSize) (unat j + 1)"
    by (auto simp: idp)
  have res: "HeapFile_Insert f rec = (Inr \<lparr>PageID = j, SlotID = sc\<rparr>, f')"
    by (simp add: HeapFile_Insert_def fp si w)
  have full: "j = pageCount f \<and> sc = 0 \<and> length f' div PageSize = length f div PageSize + 1"
    if none: "\<forall>k p. k < pageCount f \<longrightarrow> ReadPage f k = Inr p \<longrightarrow> freeSpace (InitIfFresh p) < ?need"
  proof -
    have "\<not> (unat j < length f div PageSize \<and> ReadPage f j = Inr sp \<and> ?need \<le> freeSpace sp)"
    proof
      assume a: "unat j < length f div PageSize \<and> ReadPage f j = Inr sp \<and> ?need \<le> freeSpace sp"
      then have "j < pageCount f" using cnt by (simp add: word_less_nat_alt)
      with none a have "freeSpace (InitIfFresh sp) < ?need" by blast
      with a show False by (simp add: pg_inv_InitIfFresh [OF sp(1)])
    qed
    with cases have j: "j = pageCount f" and s: "sp = InitIfFresh (new_page (pageCount f))" by auto
    from h s have "sc = 0" by (simp add: fresh_header)
    with j dv cnt show ?thesis by simp
  qed
  show ?thesis using res dv jn full by auto
qed

lemma HeapFile_Delete_total:
  assumes inv: "heap_inv f"
    and g: "HeapFile_Get f r = Inr b \<or> HeapFile_Get f r = Inl ErrSlotDeleted"
  shows "\<exists>f'. HeapFile_Delete f r = (None, f')"
proof -
  from HeapFile_Get_live [OF g] obtain p where rp: "ReadPage f (PageID r) = Inr p"
    and rq: "SlottedPage_Read p (SlotID r) = Inr b \<or> SlottedPage_Read p (SlotID r) = Inl ErrSlotDeleted"
    by blast
  note jn = heap_inv_aligned [OF inv rp]
  from heap_inv_page [OF inv jn] rp have pi: "pg_inv p" and idp: "ID p = PageID r" by auto
  obtain sc fs fe where h: "header p = (sc, fs, fe)" by (cases "header p")
  from Read_live_slot [OF h rq] have s: "SlotID r < sc" .
  from Delete_inv [OF pi h s] obtain p' where d: "SlottedPage_Delete p (SlotID r) = Inr p'"
    and pi': "pg_inv p'" and idp': "ID p' = ID p" by blast
  have jb: "unat (ID p') + 1 < 2 ^ 32" using jn inv by (simp add: heap_inv_def idp' idp)
  from WritePage_heap [OF inv pi' _ jb] jn
  obtain f' c where w: "WritePage f p' = Inr (f', p'\<lparr>Checksum := c\<rparr>)"
    by (auto simp: idp idp')
  show ?thesis by (simp add: HeapFile_Delete_def rp d w)
qed

lemma HeapFile_Insert_not_NoSpace_loop:
  "findPageLoop f need n i = Inr (j, sp) \<Longrightarrow>
   need \<le> freeSpace sp \<or> sp = InitIfFresh (new_page n)"
proof (induction f need n i rule: findPageLoop.induct)
  case (1 f need n i)
  show ?case
  proof (cases "i < n")
    case False
    with "1.prems" show ?thesis by (subst (asm) findPageLoop.simps) auto
  next
    case True
    show ?thesis
    proof (cases "ReadPage f i")
      case (Inl e)
      with "1.prems" True show ?thesis by (subst (asm) findPageLoop.simps) simp
    next
      case (Inr p)
      show ?thesis
      proof (cases "need \<le> freeSpace (InitIfFresh p)")
        case yes: True
        with "1.prems" True Inr show ?thesis by (subst (asm) findPageLoop.simps) auto
      next
        case no: False
        from "1.prems" have "findPageLoop f need n (i + 1) = Inr (j, sp)"
          using True Inr no by (subst (asm) findPageLoop.simps) simp
        from "1.IH" [OF True Inr refl no this] show ?thesis .
      qed
    qed
  qed
qed

lemma HeapFile_Insert_not_NoSpace:
  assumes l: "length rec \<le> 4076"
  shows "fst (HeapFile_Insert f rec) \<noteq> Inl ErrNoSpace"
proof (cases "findPageWithSpace f (int (length rec) + 4)")
  case (Inl e)
  from Inl have "e \<noteq> ErrNoSpace"
  proof -
    have "\<And>n i. findPageLoop f (int (length rec) + 4) n i = Inl e \<Longrightarrow> e \<noteq> ErrNoSpace"
    proof -
      fix n i show "findPageLoop f (int (length rec) + 4) n i = Inl e \<Longrightarrow> e \<noteq> ErrNoSpace"
      proof (induction f "int (length rec) + 4" n i rule: findPageLoop.induct)
        case (1 f n i)
        show ?case
        proof (cases "i < n")
          case False
          with "1.prems" show ?thesis by (subst (asm) findPageLoop.simps) simp
        next
          case True
          show ?thesis
          proof (cases "ReadPage f i")
            case (Inl e')
            with "1.prems" True have "e = e'" by (subst (asm) findPageLoop.simps) simp
            with ReadPage_errors [OF Inl] show ?thesis by auto
          next
            case (Inr p)
            show ?thesis
            proof (cases "int (length rec) + 4 \<le> freeSpace (InitIfFresh p)")
              case yes: True
              with "1.prems" True Inr show ?thesis by (subst (asm) findPageLoop.simps) auto
            next
              case no: False
              from "1.prems" have "findPageLoop f (int (length rec) + 4) n (i + 1) = Inl e"
                using True Inr no by (subst (asm) findPageLoop.simps) simp
              from "1.hyps" [OF True Inr refl no this] show ?thesis .
            qed
          qed
        qed
      qed
    qed
    with Inl show ?thesis by (simp add: findPageWithSpace_def)
  qed
  with Inl show ?thesis by (simp add: HeapFile_Insert_def)
next
  case (Inr x)
  obtain j sp where x: "x = (j, sp)" by (cases x)
  from HeapFile_Insert_not_NoSpace_loop [of f "int (length rec) + 4" "pageCount f" 0 j sp] Inr
  have "int (length rec) + 4 \<le> freeSpace sp \<or> sp = InitIfFresh (new_page (pageCount f))"
    by (simp add: findPageWithSpace_def x)
  then have room: "int (length rec) + 4 \<le> freeSpace sp" using l by (auto simp: freeSpace_fresh)
  have l': "length rec \<le> 65535" using l by simp
  from Insert_NoSpace [OF l', of sp] room
  have ns: "fst (SlottedPage_Insert sp rec) \<noteq> Inl ErrNoSpace" by simp
  have wp: "WritePage f q \<noteq> Inl ErrNoSpace" for q
    by (auto simp: WritePage_def ComputeChecksum_def Let_def split: if_splits)
  show ?thesis
    using ns wp by (auto simp: HeapFile_Insert_def Inr x split: prod.splits sum.splits)
qed

lemma heap_reach_inv:
  assumes "heap_run [] ops0 = Some f" and "length f div PageSize < 2 ^ 32"
  shows "heap_inv f"
  using heap_run_inv [OF heap_inv_empty assms] by simp

lemma pageCount_empty: "pageCount [] = 0"
  by (simp add: pageCount_def)

lemma findPageWithSpace_empty: "findPageWithSpace [] need = Inr (0, InitIfFresh (new_page 0))"
  by (simp add: findPageWithSpace_def pageCount_empty findPageLoop.simps)


lemma pg_inv_freeSpace_le: "pg_inv p \<Longrightarrow> freeSpace p \<le> 4080"
proof -
  assume inv: "pg_inv p"
  obtain sc fs fe where h: "header p = (sc, fs, fe)" by (cases "header p")
  note d = pg_inv_D [OF inv h]
  have "int (unat fe) - int (unat fs) - int (unat sc) * 4 \<le> 4080"
    using d(4) d(6) by linarith
  then have "uint fe - uint fs - uint sc * 4 \<le> 4080"
    unfolding uint_nat .
  then show ?thesis by (simp add: freeSpace_def h)
qed

text \<open>A record that fits no page: the loop passes every page, and the fresh page refuses it.\<close>

lemma HeapFile_Insert_too_large:
  assumes inv: "heap_inv f" and l: "4076 < length rec" and u: "length rec \<le> 65535"
  shows "HeapFile_Insert f rec = (Inl ErrNoSpace, f)"
proof -
  let ?need = "int (length rec) + 4"
  have le: "unat (0::u32) \<le> unat (pageCount f)" by simp
  from findPageLoop_inv [OF inv refl le, of ?need]
  obtain j sp where fp: "findPageWithSpace f ?need = Inr (j, sp)"
    and sp: "pg_inv sp"
    unfolding findPageWithSpace_def by blast
  have "freeSpace sp < ?need" using pg_inv_freeSpace_le [OF sp] l by simp
  then have "fst (SlottedPage_Insert sp rec) = Inl ErrNoSpace"
    by (simp add: Insert_NoSpace [OF u])
  then show ?thesis
    by (cases "SlottedPage_Insert sp rec") (simp add: HeapFile_Insert_def fp)
qed

text \<open>The heap of one page that a 4076-byte record fills.\<close>

lemma full_page_heap:
  fixes R :: "byte list" and F :: osfile
  assumes R: "R = replicate 4076 0" and F: "F = snd (HeapFile_Insert [] R)"
  shows "HeapFile_Insert [] R = (Inr \<lparr>PageID = 0, SlotID = 0\<rparr>, F)"
    and "heap_inv F" and "length F div PageSize = 1" and "pageCount F = 1"
    and "\<exists>p. ReadPage F 0 = Inr p \<and> freeSpace (InitIfFresh p) = - 4"
proof -
  have l: "length R \<le> 4076" by (simp add: R)
  have lR: "length R = 4076" by (simp add: R)
  have b0: "length ([]::osfile) div PageSize + 1 < 2 ^ 32" by simp
  have none: "\<forall>k p. k < pageCount [] \<longrightarrow> ReadPage [] k = Inr p \<longrightarrow>
       freeSpace (InitIfFresh p) < int (length R) + 4"
    by (simp add: pageCount_empty)
  from HeapFile_Insert_total [OF heap_inv_empty l b0]
  obtain rid f' where i: "HeapFile_Insert [] R = (Inr rid, f')"
    and imp: "(\<forall>k p. k < pageCount [] \<longrightarrow> ReadPage [] k = Inr p \<longrightarrow>
       freeSpace (InitIfFresh p) < int (length R) + 4) \<longrightarrow>
       rid = \<lparr>PageID = pageCount [], SlotID = 0\<rparr> \<and>
       length f' div PageSize = length ([]::osfile) div PageSize + 1"
    by blast
  from imp none have rid: "rid = \<lparr>PageID = 0, SlotID = 0\<rparr>"
    and len: "length f' div PageSize = 1"
    by (simp_all add: pageCount_empty)
  have f': "f' = F" using i by (simp add: F)
  show ins: "HeapFile_Insert [] R = (Inr \<lparr>PageID = 0, SlotID = 0\<rparr>, F)"
    using i rid f' by simp
  show dv: "length F div PageSize = 1" using len f' by simp
  then have b: "length F div PageSize < 2 ^ 32" by simp
  show inv: "heap_inv F" by (rule HeapFile_Insert_inv(1) [OF heap_inv_empty ins b])
  show "pageCount F = 1" by (simp add: pageCount_def dv)
  from HeapFile_Insert_shape [OF heap_inv_empty ins]
  obtain j sp sc fs fe c where
    fp: "findPageWithSpace [] (int (length R) + 4) = Inr (j, sp)"
    and pi: "pg_inv sp" and h: "header sp = (sc, fs, fe)"
    and room: "int (length R) + 4 \<le> freeSpace sp"
    and w: "WritePage [] (snd (SlottedPage_Insert sp R))
       = Inr (F, (snd (SlottedPage_Insert sp R))\<lparr>Checksum := c\<rparr>)"
    by blast
  from fp have j: "j = 0" and s: "sp = InitIfFresh (new_page 0)"
    by (simp_all add: findPageWithSpace_empty)
  from h s have hh: "sc = 0" "fs = 6" "fe = 4086" by (simp_all add: fresh_header)
  define p' where "p' = snd (SlottedPage_Insert sp R)"
  note ii = Insert_inv [OF pi h room p'_def]
  have inv': "pg_inv p'" unfolding p'_def by (rule Insert_pg_inv [OF pi h room])
  have idp: "ID p' = 0" using ii(7) s by (simp add: ID_fresh)
  have hp: "header p' = (1, 4082, 4082)" using ii(2) by (simp add: hh lR)
  have fsp: "freeSpace p' = - 4" by (simp add: freeSpace_def hp)
  have jb: "unat (ID p') + 1 < 2 ^ 32" by (simp add: idp)
  have jn: "unat (ID p') \<le> length ([]::osfile) div PageSize" by (simp add: idp)
  from WritePage_heap [OF heap_inv_empty inv' jn jb] w
  have rd: "ReadPage F 0 = Inr (p'\<lparr>Checksum := c\<rparr>)"
    by (auto simp: p'_def [symmetric] idp)
  have "pg_inv (p'\<lparr>Checksum := c\<rparr>)" using inv' by simp
  then have "InitIfFresh (p'\<lparr>Checksum := c\<rparr>) = p'\<lparr>Checksum := c\<rparr>"
    by (rule pg_inv_InitIfFresh)
  moreover have "freeSpace (p'\<lparr>Checksum := c\<rparr>) = - 4" using fsp by (simp add: freeSpace_def)
  ultimately show "\<exists>p. ReadPage F 0 = Inr p \<and> freeSpace (InitIfFresh p) = - 4"
    using rd by simp
qed


section \<open>Properties of the B-tree\<close>


lemma leafCapacity_val [simp]: "leafCapacity = 254"
  by (simp add: leafCapacity_def)

lemma internalCapacity_val [simp]: "internalCapacity = 338"
  by (simp add: internalCapacity_def)

lemma writeInternalLoop_short:
  "length kids < length keys \<Longrightarrow> writeInternalLoop d off keys kids = Inl Panic"
  by (induction d off keys kids rule: writeInternalLoop.induct) (auto split: list.splits)

lemma writeInternal_same_length:
  "length kids = length keys \<Longrightarrow> writeInternal p keys kids = Inl Panic"
  by (cases kids) (simp_all add: writeInternal_def writeInternalLoop_short)

lemma splitInternalArrays_lengths:
  assumes "length kids = length keys + 1"
    and "splitInternalArrays keys kids = ((lk, lc), (rk, rc))"
  shows "lk = take (length keys div 2) keys" "rk = drop (length keys div 2) keys"
    "length lc = length lk + 1" "length rc = length rk"
    "keys \<noteq> [] \<Longrightarrow> rk \<noteq> [] \<and> hd rk = keys ! (length keys div 2)"
proof -
  from assms(2) have e: "lk = take (length keys div 2) keys" "rk = drop (length keys div 2) keys"
    "lc = take (length keys div 2 + 1) kids" "rc = drop (length keys div 2 + 1) kids"
    by (auto simp: splitInternalArrays_def Let_def)
  show "lk = take (length keys div 2) keys" "rk = drop (length keys div 2) keys" by (rule e)+
  show "length lc = length lk + 1" using assms(1) by (simp add: e)
  show "length rc = length rk" using assms(1) by (simp add: e)
  show "rk \<noteq> [] \<and> hd rk = keys ! (length keys div 2)" if "keys \<noteq> []"
  proof -
    from that have "length keys div 2 < length keys" by (cases keys) simp_all
    then show ?thesis by (simp add: e hd_drop_conv_nth)
  qed
qed


section \<open>The slotted page: claims C8 and C10\<close>

text \<open>
  C8 (slotted insert contract). On a page that satisfies the slotted-page invariant
  (\<open>sp_valid\<close>), with header \<open>(sc, fs, fe)\<close>: \<open>Insert\<close> fails with \<open>ErrDataTooLarge\<close>
  exactly when the record is longer than 65535 bytes; otherwise it fails with
  \<open>ErrNoSpace\<close> exactly when \<open>freeSpace < len + 4\<close>; these are the only failures and
  they leave the page as it was; a successful call returns the old slot count, the
  record bytes are at \<open>fs\<close>, the slot entry \<open>(fs, len)\<close> is at payload offset
  \<open>4086 - (sc + 1) * 4\<close>, and the header is \<open>(sc + 1, fs + len, fe - 4)\<close>, none of the
  three header updates wrapping around.
\<close>

theorem slotted_Insert_contract:
  assumes v: "sp_valid p" and h: "header p = (sc, fs, fe)"
  shows "((fst (SlottedPage_Insert p rec) = Inl ErrDataTooLarge) = (length rec > 65535)) \<and>
    (length rec \<le> 65535 \<longrightarrow>
       (fst (SlottedPage_Insert p rec) = Inl ErrNoSpace) = (freeSpace p < int (length rec) + 4)) \<and>
    (\<forall>e. fst (SlottedPage_Insert p rec) = Inl e \<longrightarrow>
       (e = ErrDataTooLarge \<or> e = ErrNoSpace) \<and> snd (SlottedPage_Insert p rec) = p) \<and>
    (\<forall>s. fst (SlottedPage_Insert p rec) = Inr s \<longrightarrow>
       s = sc \<and>
       get_bytes (Data (snd (SlottedPage_Insert p rec))) (unat fs) (length rec) = rec \<and>
       get_u16 (Data (snd (SlottedPage_Insert p rec))) (PayloadSize - (unat sc + 1) * 4) = fs \<and>
       get_u16 (Data (snd (SlottedPage_Insert p rec))) (PayloadSize - (unat sc + 1) * 4 + 2)
         = of_nat (length rec) \<and>
       unat (of_nat (length rec) :: u16) = length rec \<and>
       header (snd (SlottedPage_Insert p rec)) = (sc + 1, fs + of_nat (length rec), fe - 4) \<and>
       unat (sc + 1) = unat sc + 1 \<and>
       unat (fs + of_nat (length rec)) = unat fs + length rec \<and>
       unat (fe - 4) + 4 = unat fe)"
proof (intro conjI allI impI)
  show "(fst (SlottedPage_Insert p rec) = Inl ErrDataTooLarge) = (length rec > 65535)"
    by (rule Insert_TooLarge)
next
  assume "length rec \<le> 65535"
  then show "(fst (SlottedPage_Insert p rec) = Inl ErrNoSpace) = (freeSpace p < int (length rec) + 4)"
    by (rule Insert_NoSpace)
next
  fix e assume e: "fst (SlottedPage_Insert p rec) = Inl e"
  note c = Insert_fst [OF v, of rec]
  from e c have f: "length rec > 65535 \<or> freeSpace p < int (length rec) + 4"
    by (auto split: if_splits)
  from e c show "e = ErrDataTooLarge \<or> e = ErrNoSpace"
    by (auto split: if_splits)
  from f show "snd (SlottedPage_Insert p rec) = p" by (rule Insert_snd_fail)
next
  fix s assume s: "fst (SlottedPage_Insert p rec) = Inr s"
  note c = Insert_fst [OF v, of rec]
  from s c have l: "length rec \<le> 65535" and sp: "int (length rec) + 4 \<le> freeSpace p"
    by (auto split: if_splits)
  from v h have ok: "page_ok p" and b1: "6 \<le> unat fs" and b2: "unat fs \<le> unat fe"
    and b3: "unat fe \<le> PayloadSize"
    by (simp_all add: sp_valid_def)
  from sp h have "int (length rec) + 4 \<le> uint fe - uint fs - 4 * uint sc"
    by (simp add: freeSpace_def)
  then have room: "unat fs + length rec + 4 + 4 * unat sc \<le> unat fe"
    unfolding uint_nat by linarith
  note props = Insert_success_props [OF ok h b1 b2 b3 l sp refl]
  note wf = word_facts [OF room b3]
  have e1: "PayloadSize - (unat sc + 1) * 4 = 4082 - 4 * unat sc" by simp
  have e2: "PayloadSize - (unat sc + 1) * 4 + 2 = 4084 - 4 * unat sc"
    using room b3 by simp
  show "s = sc" using s props(1) by simp
  show "get_bytes (Data (snd (SlottedPage_Insert p rec))) (unat fs) (length rec) = rec" by (rule props)
  show "get_u16 (Data (snd (SlottedPage_Insert p rec))) (PayloadSize - (unat sc + 1) * 4) = fs"
    unfolding e1 by (rule props)
  show "get_u16 (Data (snd (SlottedPage_Insert p rec))) (PayloadSize - (unat sc + 1) * 4 + 2)
         = of_nat (length rec)"
    unfolding e2 by (rule props)
  show "unat (of_nat (length rec) :: u16) = length rec" by (rule wf)
  show "header (snd (SlottedPage_Insert p rec)) = (sc + 1, fs + of_nat (length rec), fe - 4)" by (rule props)
  show "unat (sc + 1) = unat sc + 1" by (rule wf)
  show "unat (fs + of_nat (length rec)) = unat fs + length rec" by (rule wf)
  show "unat (fe - 4) + 4 = unat fe" by (rule wf)
qed

theorem slotted_Insert_contract_witness:
  "sp_valid (InitIfFresh (new_page 0)) \<and>
   header (InitIfFresh (new_page 0)) = (0, 6, 4086) \<and>
   fst (SlottedPage_Insert (InitIfFresh (new_page 0)) [1, 2, 3]) = Inr 0 \<and>
   header (snd (SlottedPage_Insert (InitIfFresh (new_page 0)) [1, 2, 3])) = (1, 9, 4082) \<and>
   get_bytes (Data (snd (SlottedPage_Insert (InitIfFresh (new_page 0)) [1, 2, 3]))) 6 3 = [1, 2, 3] \<and>
   fst (SlottedPage_Insert (InitIfFresh (new_page 0)) (replicate 5000 0)) = Inl ErrNoSpace \<and>
   snd (SlottedPage_Insert (InitIfFresh (new_page 0)) (replicate 5000 0)) = InitIfFresh (new_page 0)"
proof -
  let ?p = "InitIfFresh (new_page 0)"
  have v: "sp_valid ?p" by (rule fresh_valid)
  have h: "header ?p = (0, 6, 4086)" by (rule fresh_header)
  have s: "fst (SlottedPage_Insert ?p [1, 2, 3]) = Inr 0"
    by (simp add: Insert_fst [OF v] h freeSpace_def)
  have f: "fst (SlottedPage_Insert ?p (replicate 5000 0)) = Inl ErrNoSpace"
    by (simp add: Insert_fst [OF v] h freeSpace_def)
  from slotted_Insert_contract [OF v h, of "[1, 2, 3]"] s
    slotted_Insert_contract [OF v h, of "replicate 5000 0"] f v h
  show ?thesis by (simp add: numeral_3_eq_3)
qed

text \<open>
  C10 as stated fails: \<open>InitIfFresh\<close> sets \<open>DataSize\<close> only when it reseeds the header or
  when \<open>DataSize\<close> is 0. On \<open>stale_page\<close> (header \<open>(1, 10, 4082)\<close>, \<open>DataSize = 100\<close>) it
  leaves \<open>DataSize\<close> at 100.
\<close>

theorem InitIfFresh_DataSize_counterexample:
  "page_ok stale_page \<and> header stale_page = (1, 10, 4082) \<and>
   DataSize (InitIfFresh stale_page) = 100 \<and> DataSize (InitIfFresh stale_page) \<noteq> 4086"
  by (simp add: stale_page_def page_ok_def InitIfFresh_cases header_def get_u16_def get_bytes_def)

text \<open>
  C10 (amended). If the slotted header reads all zeros, \<open>InitIfFresh\<close> reseeds it to
  \<open>(0, 6, 4086)\<close>, otherwise it leaves the header unchanged; afterwards \<open>DataSize\<close> is
  4086 if the header was reseeded or \<open>DataSize\<close> was 0, and is unchanged otherwise; and
  applying \<open>InitIfFresh\<close> twice gives the same page as applying it once.
\<close>

theorem InitIfFresh_contract:
  "page_ok p \<Longrightarrow>
   header (InitIfFresh p) = (if header p = (0, 0, 0) then (0, 6, 4086) else header p) \<and>
   DataSize (InitIfFresh p)
     = (if header p = (0, 0, 0) \<or> DataSize p = 0 then 4086 else DataSize p) \<and>
   InitIfFresh (InitIfFresh p) = InitIfFresh p"
  by (simp add: InitIfFresh_header InitIfFresh_DataSize InitIfFresh_idem)

theorem InitIfFresh_contract_witness:
  "page_ok (new_page 7) \<and>
   header (InitIfFresh (new_page 7)) = (0, 6, 4086) \<and>
   DataSize (InitIfFresh (new_page 7)) = 4086 \<and>
   InitIfFresh (InitIfFresh (new_page 7)) = InitIfFresh (new_page 7)"
  using InitIfFresh_contract [OF page_ok_new_page, of 7]
  by (simp add: header_new_page page_ok_new_page)

section \<open>The page codec: claims C5 and C6\<close>

text \<open>
  C5 (page round trip). For every payload of at most 4086 bytes and every page \<open>p\<close> that
  holds it (\<open>DataSize p\<close> is its length and it is the first \<open>DataSize p\<close> bytes of
  \<open>Data p\<close>), whatever the id of \<open>p\<close> and the file: \<open>WritePage\<close> succeeds, and \<open>ReadPage\<close> of
  the same id on the written file returns a page with the same id, the same \<open>DataSize\<close>
  and the same first \<open>DataSize\<close> payload bytes.
\<close>

theorem page_round_trip:
  assumes "length payload \<le> PayloadSize" and "page_ok p"
    and "unat (DataSize p) = length payload" and "take (length payload) (Data p) = payload"
  shows "\<exists>f' q. WritePage f p = Inr (f', q) \<and> ReadPage f' (ID p) = Inr q \<and>
           ID q = ID p \<and> DataSize q = DataSize p \<and>
           take (unat (DataSize q)) (Data q) = payload"
proof -
  from assms have "unat (DataSize p) \<le> PayloadSize" by simp
  from page_round_trip_aux [OF assms(2) this, of f] assms(3,4)
  show ?thesis by auto
qed

theorem page_round_trip_witness:
  "\<exists>f' q. WritePage [] sample_page = Inr (f', q) \<and> ReadPage f' 7 = Inr q \<and>
           ID q = 7 \<and> DataSize q = 2 \<and> take (unat (DataSize q)) (Data q) = [0x68, 0x69]"
  using page_round_trip [of "[0x68, 0x69]" sample_page "[]"]
  by (simp add: sample_page_ok sample_page_fields) (simp add: sample_page_def)


text \<open>
  C6 (checksum sensitivity). After a successful \<open>WritePage\<close> of page \<open>p\<close>, replacing the
  byte at any file position \<open>k\<close> in \<open>[id * 4096 + 10, id * 4096 + 10 + DataSize)\<close> by any
  other value makes \<open>ReadPage\<close> of that id fail with \<open>ErrChecksumMismatch\<close>.
\<close>

theorem checksum_sensitivity:
  assumes "page_ok p" and "WritePage f p = Inr (f', p')"
    and "pageOffset (ID p) + HeaderSize \<le> k"
    and "k < pageOffset (ID p) + HeaderSize + unat (DataSize p)"
    and "b \<noteq> f' ! k"
  shows "ReadPage (f'[k := b]) (ID p) = Inl ErrChecksumMismatch"
  using assms by (rule checksum_sensitivity_aux)

theorem checksum_sensitivity_witness:
  "\<exists>f' q. WritePage [] sample_page = Inr (f', q) \<and> f' ! 28682 = 0x68 \<and>
     ReadPage (f'[28682 := 0x68 XOR 0xFF]) 7 = Inl ErrChecksumMismatch"
proof -
  let ?q = "sample_page\<lparr>Checksum := ChecksumIEEE (take (unat (DataSize sample_page)) (Data sample_page))\<rparr>"
  let ?f = "WriteAt [] (page_buf ?q) (pageOffset (ID sample_page))"
  have w: "WritePage [] sample_page = Inr (?f, ?q)"
    by (rule WritePage_ok [OF sample_page_ok]) (simp add: sample_page_fields)
  have lq: "length (Data ?q) = PayloadSize" using sample_page_ok by (simp add: page_ok_def)
  have off: "pageOffset (ID sample_page) = 28672" by (simp add: pageOffset_def sample_page_fields)
  have "drop 28672 ?f = page_buf ?q @ drop (28672 + length (page_buf ?q)) []"
    unfolding off by (rule WriteAt_drop)
  then have "drop 28672 ?f ! 10 = page_buf ?q ! 10" by (simp add: length_page_buf [OF lq])
  moreover have "28672 + 10 \<le> length ?f" by (simp add: length_WriteAt length_page_buf [OF lq] off)
  ultimately have "?f ! 28682 = page_buf ?q ! 10" by simp
  also have "\<dots> = 0x68" by (simp add: page_buf_eq [OF lq]) (simp add: sample_page_def nth_append)
  finally have v: "?f ! 28682 = 0x68" .
  have off7: "pageOffset 7 = 28672" by (simp add: pageOffset_def)
  have ne: "0x68 XOR 0xFF \<noteq> ?f ! 28682" unfolding v by simp
  have "ReadPage (?f[28682 := 0x68 XOR 0xFF]) (ID sample_page) = Inl ErrChecksumMismatch"
    by (rule checksum_sensitivity [OF sample_page_ok w _ _ ne])
       (simp_all add: off7 sample_page_fields)
  then show ?thesis using w v by (simp add: sample_page_fields)
qed

section \<open>The heap file: claims C4 and C9\<close>

text \<open>
  C9 as stated fails: a fresh page has \<open>freeSpace = 4080\<close>, so a record of 4077 bytes
  (within the encodable limit 65535) does not fit the page \<open>findPageWithSpace\<close> allocates,
  and \<open>HeapFile.Insert\<close> returns the slotted layer's \<open>ErrNoSpace\<close> to its caller.
\<close>

theorem heap_insert_large_record_counterexample:
  "length (replicate 4077 (0::byte)) \<le> 65535 \<and>
   HeapFile_Insert [] (replicate 4077 0) = (Inl ErrNoSpace, [])"
proof -
  have "fst (SlottedPage_Insert (InitIfFresh (new_page 0)) (replicate 4077 0)) = Inl ErrNoSpace"
    by (simp add: Insert_fst [OF fresh_valid] freeSpace_fresh)
  then show ?thesis
    by (cases "SlottedPage_Insert (InitIfFresh (new_page 0)) (replicate 4077 0)")
       (simp add: HeapFile_Insert_def findPageWithSpace_empty)
qed

text \<open>
  C9 (amended). For every record of at most 4076 bytes, \<open>HeapFile.Insert\<close> never returns
  \<open>ErrNoSpace\<close>, on any file. On a heap file built from the empty file by successful
  inserts and deletes (and below \<open>2^32 - 1\<close> pages) the insert of such a record succeeds;
  when no existing page has \<open>freeSpace \<ge> len + 4\<close> it allocates page \<open>pageCount\<close>, puts the
  record in its slot 0, and the file grows by one page. On the same heap files every
  record of 4077 to 65535 bytes gets \<open>ErrNoSpace\<close> and the file is left as it was.
\<close>

theorem heap_insert_no_space:
  "(length rec \<le> 4076 \<longrightarrow> fst (HeapFile_Insert f rec) \<noteq> Inl ErrNoSpace) \<and>
   (\<forall>ops0. heap_run [] ops0 = Some f \<and> length f div PageSize + 1 < 2 ^ 32 \<longrightarrow>
      (length rec \<le> 4076 \<longrightarrow>
        (\<exists>rid f'. HeapFile_Insert f rec = (Inr rid, f') \<and>
           ((\<forall>k p. k < pageCount f \<longrightarrow> ReadPage f k = Inr p \<longrightarrow>
                freeSpace (InitIfFresh p) < int (length rec) + 4) \<longrightarrow>
            rid = \<lparr>PageID = pageCount f, SlotID = 0\<rparr> \<and>
            length f' div PageSize = length f div PageSize + 1))) \<and>
      (4076 < length rec \<and> length rec \<le> 65535 \<longrightarrow>
        HeapFile_Insert f rec = (Inl ErrNoSpace, f)))"
proof -
  have A: "fst (HeapFile_Insert f rec) \<noteq> Inl ErrNoSpace" if "length rec \<le> 4076"
    by (rule HeapFile_Insert_not_NoSpace [OF that])
  have B: "\<exists>rid f'. HeapFile_Insert f rec = (Inr rid, f') \<and>
           ((\<forall>k p. k < pageCount f \<longrightarrow> ReadPage f k = Inr p \<longrightarrow>
                freeSpace (InitIfFresh p) < int (length rec) + 4) \<longrightarrow>
            rid = \<lparr>PageID = pageCount f, SlotID = 0\<rparr> \<and>
            length f' div PageSize = length f div PageSize + 1)"
    if a: "heap_run [] ops0 = Some f \<and> length f div PageSize + 1 < 2 ^ 32"
      and l: "length rec \<le> 4076" for ops0
  proof -
    from a have inv: "heap_inv f" by (intro heap_reach_inv [of ops0]) simp_all
    from HeapFile_Insert_total [OF inv l] a show ?thesis by blast
  qed
  have C: "HeapFile_Insert f rec = (Inl ErrNoSpace, f)"
    if a: "heap_run [] ops0 = Some f \<and> length f div PageSize + 1 < 2 ^ 32"
      and l: "4076 < length rec \<and> length rec \<le> 65535" for ops0
  proof -
    from a have inv: "heap_inv f" by (intro heap_reach_inv [of ops0]) simp_all
    from l show ?thesis by (intro HeapFile_Insert_too_large [OF inv]) simp_all
  qed
  show ?thesis
    apply (rule conjI)
     apply (rule impI, erule A)
    apply (rule allI, rule impI, rule conjI)
     apply (rule impI, erule (1) B)
    apply (rule impI, erule (1) C)
    done
qed

text \<open>
  The theorem at the heap whose page 0 a 4076-byte record has filled (\<open>freeSpace = -4\<close>):
  the record \<open>[1, 2, 3]\<close> goes to the new page 1, slot 0, and a 4077-byte record gets
  \<open>ErrNoSpace\<close>.
\<close>

theorem heap_insert_no_space_witness:
  "heap_run [] [HInsert (replicate 4076 0)] = Some (snd (HeapFile_Insert [] (replicate 4076 0))) \<and>
   length (snd (HeapFile_Insert [] (replicate 4076 0))) div PageSize = 1 \<and>
   (\<exists>p. ReadPage (snd (HeapFile_Insert [] (replicate 4076 0))) 0 = Inr p \<and>
        freeSpace (InitIfFresh p) = - 4) \<and>
   fst (HeapFile_Insert (snd (HeapFile_Insert [] (replicate 4076 0))) [1, 2, 3])
     = Inr \<lparr>PageID = 1, SlotID = 0\<rparr> \<and>
   length (snd (HeapFile_Insert (snd (HeapFile_Insert [] (replicate 4076 0))) [1, 2, 3]))
     div PageSize = 2 \<and>
   HeapFile_Insert (snd (HeapFile_Insert [] (replicate 4076 0))) (replicate 4077 0)
     = (Inl ErrNoSpace, snd (HeapFile_Insert [] (replicate 4076 0)))"
proof -
  define R :: "byte list" where "R = replicate 4076 0"
  define F where "F = snd (HeapFile_Insert [] R)"
  define B :: "byte list" where "B = replicate 4077 0"
  note fp = full_page_heap [OF R_def F_def]
  have run: "heap_run [] [HInsert R] = Some F" by (simp add: fp(1))
  have bnd: "length F div PageSize + 1 < 2 ^ 32" by (simp add: fp(3))
  from fp(5) obtain p0 where p0: "ReadPage F 0 = Inr p0" "freeSpace (InitIfFresh p0) = - 4"
    by blast
  have none: "\<forall>k p. k < pageCount F \<longrightarrow> ReadPage F k = Inr p \<longrightarrow>
       freeSpace (InitIfFresh p) < int (length ([1, 2, 3]::byte list)) + 4"
  proof (intro allI impI)
    fix k p assume k: "k < pageCount F" and r: "ReadPage F k = Inr p"
    from k have "k = 0" by (simp add: fp(4) word_less_1)
    with r p0 show "freeSpace (InitIfFresh p) < int (length ([1, 2, 3]::byte list)) + 4"
      by simp
  qed
  have l3: "length ([1, 2, 3]::byte list) \<le> 4076" by simp
  have lB: "4076 < length B \<and> length B \<le> 65535" by (simp add: B_def)
  note T = heap_insert_no_space [of _ F, THEN conjunct2, THEN spec, THEN mp, OF conjI [OF run bnd]]
  from T [of "[1, 2, 3]", THEN conjunct1, THEN mp, OF l3]
  obtain rid f' where i: "HeapFile_Insert F [1, 2, 3] = (Inr rid, f')"
    and imp: "(\<forall>k p. k < pageCount F \<longrightarrow> ReadPage F k = Inr p \<longrightarrow>
       freeSpace (InitIfFresh p) < int (length ([1, 2, 3]::byte list)) + 4) \<longrightarrow>
       rid = \<lparr>PageID = pageCount F, SlotID = 0\<rparr> \<and>
       length f' div PageSize = length F div PageSize + 1"
    by blast
  from imp none have "rid = \<lparr>PageID = pageCount F, SlotID = 0\<rparr>"
    and "length f' div PageSize = length F div PageSize + 1" by blast+
  then have a: "fst (HeapFile_Insert F [1, 2, 3]) = Inr \<lparr>PageID = 1, SlotID = 0\<rparr>"
    and b: "length (snd (HeapFile_Insert F [1, 2, 3])) div PageSize = 2"
    by (simp_all add: i fp(3) fp(4))
  have c: "HeapFile_Insert F B = (Inl ErrNoSpace, F)"
    by (rule T [of B, THEN conjunct2, THEN mp, OF lB])
  have d: "\<exists>p. ReadPage F 0 = Inr p \<and> freeSpace (InitIfFresh p) = - 4" by (rule fp(5))
  show ?thesis
    using run fp(3) d a b c unfolding F_def R_def B_def
    by (intro conjI)
qed

text \<open>
  C4 as stated fails for the empty record: its slot has length 0, which is the
  tombstone mark, so \<open>Get\<close> of the rid just returned fails with \<open>ErrSlotDeleted\<close>.
\<close>

theorem heap_empty_record_counterexample:
  "fst (HeapFile_Insert [] []) = Inr \<lparr>PageID = 0, SlotID = 0\<rparr> \<and>
   HeapFile_Get (snd (HeapFile_Insert [] [])) \<lparr>PageID = 0, SlotID = 0\<rparr> = Inl ErrSlotDeleted"
proof -
  have none: "\<forall>k p. k < pageCount [] \<longrightarrow> ReadPage [] k = Inr p \<longrightarrow>
       freeSpace (InitIfFresh p) < int (length ([]::byte list)) + 4"
    by (simp add: pageCount_empty)
  have b0: "length ([]::osfile) div PageSize + 1 < 2 ^ 32" by simp
  have l0: "length ([]::byte list) \<le> 4076" by simp
  from HeapFile_Insert_total [OF heap_inv_empty l0 b0]
  obtain rid f' where i: "HeapFile_Insert [] [] = (Inr rid, f')"
    and le: "length f' div PageSize \<le> length ([]::osfile) div PageSize + 1"
    and imp: "(\<forall>k p. k < pageCount [] \<longrightarrow> ReadPage [] k = Inr p \<longrightarrow>
       freeSpace (InitIfFresh p) < int (length ([]::byte list)) + 4) \<longrightarrow>
       rid = \<lparr>PageID = pageCount [], SlotID = 0\<rparr> \<and>
       length f' div PageSize = length ([]::osfile) div PageSize + 1"
    by blast
  from imp none have rid: "rid = \<lparr>PageID = 0, SlotID = 0\<rparr>"
    by (simp add: pageCount_empty)
  have b: "length f' div PageSize < 2 ^ 32" using le by simp
  from HeapFile_Insert_inv(2) [OF heap_inv_empty i b] i rid show ?thesis by simp
qed

text \<open>
  C4 (amended). On a heap file \<open>f0\<close> built from the empty file by successful inserts and
  deletes, with files below \<open>2^32\<close> pages: after any sequence of successful inserts
  yielding rids, \<open>Get\<close> of each rid returns exactly the bytes inserted under it, provided
  that record is not empty; after a successful \<open>Delete rid\<close>, \<open>Get rid\<close> fails with
  \<open>ErrSlotDeleted\<close>, and it still does after any further successful inserts and deletes,
  and \<open>Scan\<close> never passes that rid to its visitor.
\<close>

theorem heap_round_trip:
  assumes "heap_run [] ops0 = Some f0"
  shows "(\<forall>recs rids f1.
            heap_inserts f0 recs = Some (rids, f1) \<and> length f1 div PageSize < 2 ^ 32 \<longrightarrow>
            length rids = length recs \<and>
            (\<forall>i < length recs. recs ! i \<noteq> [] \<longrightarrow>
               HeapFile_Get f1 (rids ! i) = Inr (recs ! i))) \<and>
         (\<forall>rid f1.
            length f0 div PageSize < 2 ^ 32 \<and> HeapFile_Delete f0 rid = (None, f1) \<longrightarrow>
            HeapFile_Get f1 rid = Inl ErrSlotDeleted \<and>
            (\<forall>ops f2 visit.
               heap_run f1 ops = Some f2 \<and> length f2 div PageSize < 2 ^ 32 \<longrightarrow>
               HeapFile_Get f2 rid = Inl ErrSlotDeleted \<and>
               rid \<notin> fst ` set (snd (HeapFile_Scan f2 visit))))"
proof -
  have A: "length rids = length recs \<and>
     (\<forall>i < length recs. recs ! i \<noteq> [] \<longrightarrow> HeapFile_Get f1 (rids ! i) = Inr (recs ! i))"
    if a: "heap_inserts f0 recs = Some (rids, f1) \<and> length f1 div PageSize < 2 ^ 32"
    for recs rids f1
  proof -
    from a have a1: "heap_inserts f0 recs = Some (rids, f1)"
      and a2: "length f1 div PageSize < 2 ^ 32" by simp_all
    have "length f0 div PageSize < 2 ^ 32"
      by (rule div_bound_mono [OF heap_inserts_mono [OF a1] a2])
    then have inv: "heap_inv f0" by (rule heap_reach_inv [OF assms])
    from heap_inserts_inv [OF inv a1 a2] show ?thesis by simp
  qed
  have B: "HeapFile_Get f1 rid = Inl ErrSlotDeleted \<and>
            (\<forall>ops f2 visit.
               heap_run f1 ops = Some f2 \<and> length f2 div PageSize < 2 ^ 32 \<longrightarrow>
               HeapFile_Get f2 rid = Inl ErrSlotDeleted \<and>
               rid \<notin> fst ` set (snd (HeapFile_Scan f2 visit)))"
    if a: "length f0 div PageSize < 2 ^ 32 \<and> HeapFile_Delete f0 rid = (None, f1)"
    for rid f1
  proof -
    from a have a1: "length f0 div PageSize < 2 ^ 32"
      and d: "HeapFile_Delete f0 rid = (None, f1)" by simp_all
    have inv: "heap_inv f0" by (rule heap_reach_inv [OF assms a1])
    note di = HeapFile_Delete_inv [OF inv d]
    have C: "HeapFile_Get f2 rid = Inl ErrSlotDeleted \<and>
               rid \<notin> fst ` set (snd (HeapFile_Scan f2 visit))"
      if b: "heap_run f1 ops = Some f2 \<and> length f2 div PageSize < 2 ^ 32" for ops f2 visit
    proof -
      from b have b1: "heap_run f1 ops = Some f2" and b2: "length f2 div PageSize < 2 ^ 32"
        by simp_all
      from heap_run_inv [OF di(1) b1 b2] di(3)
      have g: "HeapFile_Get f2 rid = Inl ErrSlotDeleted" by simp
      have "rid \<notin> fst ` set (snd (HeapFile_Scan f2 visit))"
      proof
        assume "rid \<in> fst ` set (snd (HeapFile_Scan f2 visit))"
        then obtain b where "(rid, b) \<in> set (snd (HeapFile_Scan f2 visit))" by auto
        from HeapFile_Scan_visits [OF this] g show False by simp
      qed
      with g show ?thesis by simp
    qed
    show ?thesis
      apply (rule conjI)
       apply (rule di(3))
      apply (intro allI impI)
      apply (erule C)
      done
  qed
  show ?thesis
    apply (rule conjI)
     apply (intro allI impI)
     apply (erule A)
    apply (intro allI impI)
    apply (erule B)
    done
qed

theorem heap_round_trip_witness:
  "\<exists>rid f1 f2.
     heap_run [] [] = Some [] \<and>
     heap_inserts [] [[1, 2, 3]] = Some ([rid], f1) \<and> length f1 div PageSize < 2 ^ 32 \<and>
     HeapFile_Get f1 rid = Inr [1, 2, 3] \<and>
     heap_run [] [HInsert [1, 2, 3]] = Some f1 \<and>
     HeapFile_Delete f1 rid = (None, f2) \<and>
     HeapFile_Get f2 rid = Inl ErrSlotDeleted \<and>
     heap_run f2 [] = Some f2 \<and> length f2 div PageSize < 2 ^ 32 \<and>
     rid \<notin> fst ` set (snd (HeapFile_Scan f2 (\<lambda>log r b. True)))"
proof -
  have l0: "length ([1, 2, 3]::byte list) \<le> 4076" by simp
  have b0: "length ([]::osfile) div PageSize + 1 < 2 ^ 32" by simp
  from HeapFile_Insert_total [OF heap_inv_empty l0 b0]
  obtain rid f1 where i: "HeapFile_Insert [] [1, 2, 3] = (Inr rid, f1)"
    and le: "length f1 div PageSize \<le> length ([]::osfile) div PageSize + 1"
    by blast
  have b1: "length f1 div PageSize < 2 ^ 32" using le by simp
  have r0: "heap_run [] [] = Some []" by simp
  have hi: "heap_inserts [] [[1, 2, 3]] = Some ([rid], f1)" by (simp add: i)
  have r1: "heap_run [] [HInsert [1, 2, 3]] = Some f1" by (simp add: i)
  from heap_round_trip [OF r0, THEN conjunct1, rule_format, of "[[1, 2, 3]]" "[rid]" f1] hi b1
  have g1: "HeapFile_Get f1 rid = Inr [1, 2, 3]" by simp
  have inv1: "heap_inv f1" by (rule heap_reach_inv [OF r1 b1])
  from HeapFile_Delete_total [OF inv1, of rid "[1, 2, 3]"] g1
  obtain f2 where d: "HeapFile_Delete f1 rid = (None, f2)" by blast
  have lf2: "length f2 = length f1" by (rule HeapFile_Delete_inv(2) [OF inv1 d])
  have b2: "length f2 div PageSize < 2 ^ 32" using b1 lf2 by simp
  have r2: "heap_run f2 [] = Some f2" by simp
  note B = heap_round_trip [OF r1, THEN conjunct2, THEN spec, THEN spec, THEN mp,
      OF conjI [OF b1 d]]
  have g2: "HeapFile_Get f2 rid = Inl ErrSlotDeleted" by (rule B [THEN conjunct1])
  note C = B [THEN conjunct2, THEN spec, THEN spec, THEN spec, THEN mp, OF conjI [OF r2 b2]]
  have s: "rid \<notin> fst ` set (snd (HeapFile_Scan f2 (\<lambda>log r b. True)))"
    by (rule C [THEN conjunct2])
  show ?thesis
    apply (rule exI [of _ rid], rule exI [of _ f1], rule exI [of _ f2])
    apply (intro conjI r0 hi b1 g1 r1 d g2 r2 b2 s)
    done
qed

section \<open>The B-tree: claim C2\<close>

text \<open>
  C2 does not hold of the code. On the 339 keys and 340 children of an overflowing
  internal node, \<open>splitInternalArrays\<close> splits at \<open>m = 169\<close>; the left half is as the
  claim says, but the right half keeps the middle key \<open>keys[169]\<close> as its first key and
  so has 170 keys for 170 children: it is not an internal node with one more child than
  keys, and \<open>writeInternal\<close> on it indexes \<open>kids[170]\<close> and panics, for every page it is
  asked to fill.
\<close>

theorem internal_split_right_half_malformed:
  "length overflow_keys = internalCapacity + 1 \<and>
   length overflow_kids = length overflow_keys + 1 \<and>
   (case splitInternalArrays overflow_keys overflow_kids of
      ((lk, lc), (rk, rc)) \<Rightarrow>
        lk = take 169 overflow_keys \<and> lc = take 170 overflow_kids \<and>
        rk = drop 169 overflow_keys \<and> rc = drop 170 overflow_kids \<and>
        hd rk = overflow_keys ! 169 \<and>
        length rk = 170 \<and> length rc = 170 \<and>
        writeInternal p rk rc = Inl Panic)"
proof -
  have lk: "length overflow_keys = 339" and lc: "length overflow_kids = 340"
    by (simp_all add: overflow_keys_def overflow_kids_def)
  have s: "splitInternalArrays overflow_keys overflow_kids =
      ((take 169 overflow_keys, take 170 overflow_kids),
       (drop 169 overflow_keys, drop 170 overflow_kids))"
    by (simp add: splitInternalArrays_def lk)
  have w: "writeInternal p (drop 169 overflow_keys) (drop 170 overflow_kids) = Inl Panic"
    by (rule writeInternal_same_length) (simp add: lk lc)
  have h: "hd (drop 169 overflow_keys) = overflow_keys ! 169"
    by (simp add: hd_drop_conv_nth lk)
  show ?thesis by (simp add: s w h lk lc)
qed

end
